theory Spec2Isabelle
  imports Complex_Main "HOL-Library.Word"
begin

unbundle bit_operations_syntax

section \<open>Numbers\<close>

text \<open>
  The program computes with JavaScript numbers (IEEE-754 doubles). Coordinates, counts,
  indices and scores are integers far below \<open>2 ^ 53\<close>, where double arithmetic is exact:
  they are \<^typ>\<open>int\<close> and \<^typ>\<open>nat\<close> here. Where the source multiplies or divides by a
  fraction (\<open>0.7\<close>, \<open>0.15\<close>, the value of \<open>random()\<close>), the result of each operation is
  rounded to the nearest double, ties to even; \<open>toDouble\<close> is that rounding on the
  rationals (exponent range not modelled: no overflow to infinity, no subnormals).
\<close>

definition pow2 :: "int \<Rightarrow> rat" where
  "pow2 e = (if 0 \<le> e then 2 ^ nat e else 1 / 2 ^ nat (- e))"

function bitlen :: "int \<Rightarrow> int" where
  "bitlen n = (if n \<le> 0 then 0 else 1 + bitlen (n div 2))"
  by pat_completeness auto
termination
  by (relation "measure nat") auto

declare bitlen.simps [simp del]

text \<open>\<open>ilog2 q\<close> is the exponent \<open>e\<close> with \<open>2 ^ e \<le> q < 2 ^ (e + 1)\<close>, for \<open>q > 0\<close>.\<close>

definition ilog2 :: "rat \<Rightarrow> int" where
  "ilog2 q = (if 1 \<le> q then bitlen \<lfloor>q\<rfloor> - 1 else - bitlen (\<lceil>1 / q\<rceil> - 1))"

definition roundEven :: "rat \<Rightarrow> int" where
  "roundEven q =
     (let f = \<lfloor>q\<rfloor>; d = q - of_int f
      in if d < 1 / 2 then f else if 1 / 2 < d then f + 1
         else if even f then f else f + 1)"

definition toDouble :: "rat \<Rightarrow> rat" where
  "toDouble q =
     (if q = 0 then 0
      else let e = ilog2 \<bar>q\<bar> - 52
           in sgn q * of_int (roundEven (\<bar>q\<bar> / pow2 e)) * pow2 e)"

text \<open>Arithmetic on doubles: each operation rounds its exact result.\<close>

definition mulD :: "rat \<Rightarrow> rat \<Rightarrow> rat" where
  "mulD a b = toDouble (a * b)"

definition addD :: "rat \<Rightarrow> rat \<Rightarrow> rat" where
  "addD a b = toDouble (a + b)"

definition subD :: "rat \<Rightarrow> rat \<Rightarrow> rat" where
  "subD a b = toDouble (a - b)"

section \<open>seededRandom.ts\<close>

text \<open>
  A seed is a number or a string. The generator keeps the seed it was built with and the
  running state \<open>currentSeed\<close>, a JavaScript number that grows by \<open>0x6D2B79F5\<close> with each
  call (rounded as a double once it passes \<open>2 ^ 53\<close>); \<open>ToInt32\<close> reduces it modulo
  \<open>2 ^ 32\<close> when the bit operations read it.
\<close>

datatype Seed = SeedNumber int | SeedString string

record SeededRandom =
  rng_seed :: int
  rng_currentSeed :: int

text \<open>\<open>hashString\<close>: \<open>hash = ((hash << 5) - hash) + char; hash = hash & hash\<close> over the
  characters, then \<open>Math.abs(hash || 1)\<close>. The running hash is an int32.\<close>

definition hashStep :: "32 word \<Rightarrow> char \<Rightarrow> 32 word" where
  "hashStep hash c = (push_bit 5 hash - hash) + of_nat (of_char c)"

definition hashString :: "string \<Rightarrow> int" where
  "hashString str =
     (let hash = foldl hashStep 0 str
      in \<bar>if hash = 0 then 1 else sint hash\<bar>)"

definition seedValue :: "Seed \<Rightarrow> int" where
  "seedValue s = (case s of SeedNumber n \<Rightarrow> n | SeedString str \<Rightarrow> hashString str)"

text \<open>The constructor with a seed given (without one the source draws from
  \<open>Math.random\<close>, which no claim here concerns).\<close>

definition newSeededRandom :: "Seed \<Rightarrow> SeededRandom" where
  "newSeededRandom s = \<lparr> rng_seed = seedValue s, rng_currentSeed = seedValue s \<rparr>"

definition getSeed :: "SeededRandom \<Rightarrow> int" where
  "getSeed r = rng_seed r"

definition reset :: "SeededRandom \<Rightarrow> SeededRandom" where
  "reset r = r \<lparr> rng_currentSeed := rng_seed r \<rparr>"

text \<open>\<open>random()\<close>, Mulberry32. \<open>mix\<close> is the bit mixing of its second to fourth lines
  on the int32 \<open>t\<close>, up to the final \<open>>>> 0\<close>; the result of \<open>random()\<close> is the double
  \<open>k / 2 ^ 32\<close> for the unsigned 32-bit \<open>k\<close> computed.\<close>

definition mix :: "32 word \<Rightarrow> 32 word" where
  "mix t0 =
     (let t1 = (t0 XOR drop_bit 15 t0) * (t0 OR 1);
          t2 = t1 XOR (t1 + (t1 XOR drop_bit 7 t1) * (t1 OR 61))
      in t2 XOR drop_bit 14 t2)"

definition random :: "SeededRandom \<Rightarrow> rat \<times> SeededRandom" where
  "random r =
     (let cs = \<lfloor>toDouble (of_int (rng_currentSeed r + 0x6D2B79F5))\<rfloor>
      in (of_int (uint (mix (word_of_int cs))) / 4294967296,
          r \<lparr> rng_currentSeed := cs \<rparr>))"

text \<open>\<open>randomInt(min, max)\<close>: \<open>min = Math.ceil(min); max = Math.floor(max);
  return Math.floor(this.random() * (max - min + 1)) + min\<close>. The arguments are doubles
  (finite ones here), and so is the result; the subtraction, the two additions and the
  product each round. There is no check of the arguments and no \<open>throw\<close>: the function
  always returns a number.\<close>

definition randomInt :: "rat \<Rightarrow> rat \<Rightarrow> SeededRandom \<Rightarrow> rat \<times> SeededRandom" where
  "randomInt minArg maxArg r =
     (let lo = of_int \<lceil>minArg\<rceil>;
          hi = of_int \<lfloor>maxArg\<rfloor>;
          (v, r') = random r
      in (addD (of_int \<lfloor>mulD v (addD (subD hi lo) 1)\<rfloor>) lo, r'))"

definition randomBoolean :: "rat \<Rightarrow> SeededRandom \<Rightarrow> bool \<times> SeededRandom" where
  "randomBoolean probability r = (let (v, r') = random r in (v < probability, r'))"

text \<open>\<open>n\<close> successive calls of \<open>random()\<close>: the outputs in order, and the generator after.\<close>

fun randoms :: "nat \<Rightarrow> SeededRandom \<Rightarrow> rat list \<times> SeededRandom" where
  "randoms 0 r = ([], r)"
| "randoms (Suc n) r =
     (let (v, r') = random r; (vs, r'') = randoms n r' in (v # vs, r''))"


section \<open>types.ts, cell.ts\<close>

datatype Position = Position (pos_x: int) (pos_y: int)

datatype CellType =
  Empty | Wall | Player | Path | PlayerTrail | Visited | Target | QueuedTarget

text \<open>A \<open>Cell\<close> object holds its fixed position, its DOM element and \<open>currentType\<close>.
  The cell stored at \<open>cells[y][x]\<close> is built with position \<open>{x, y}\<close>, so the model keeps
  the type alone, at that place of the array. \<open>cell.reset()\<close> is \<open>setType(Empty)\<close>.\<close>

definition isWalkable :: "CellType \<Rightarrow> bool" where
  "isWalkable t = (t \<noteq> Wall)"

section \<open>grid.ts\<close>

text \<open>The world part of \<open>Grid\<close> (the later of the two versions in the file): the world
  dimensions, fixed by the constructor, and the cell array \<open>cells[y][x]\<close> that
  \<open>initializeWorld\<close> fills with \<open>worldHeight\<close> rows of \<open>worldWidth\<close> cells. The viewport
  fields only select what is drawn.\<close>

record Grid =
  worldWidth :: nat
  worldHeight :: nat
  cells :: "CellType list list"

definition initializeWorld :: "nat \<Rightarrow> nat \<Rightarrow> Grid" where
  "initializeWorld w h =
     \<lparr> worldWidth = w, worldHeight = h, cells = replicate h (replicate w Empty) \<rparr>"

definition isWithinWorldBounds :: "Grid \<Rightarrow> Position \<Rightarrow> bool" where
  "isWithinWorldBounds grid position =
     (0 \<le> pos_x position \<and> pos_x position < int (worldWidth grid) \<and>
      0 \<le> pos_y position \<and> pos_y position < int (worldHeight grid))"

definition getCell :: "Grid \<Rightarrow> Position \<Rightarrow> CellType option" where
  "getCell grid worldPosition =
     (if isWithinWorldBounds grid worldPosition
      then Some (cells grid ! nat (pos_y worldPosition) ! nat (pos_x worldPosition))
      else None)"

text \<open>\<open>cell.setType(t)\<close> on the cell object stored at \<open>cells[y][x]\<close>.\<close>

definition setType :: "Grid \<Rightarrow> Position \<Rightarrow> CellType \<Rightarrow> Grid" where
  "setType grid p t =
     grid \<lparr> cells := (cells grid)
        [nat (pos_y p) := (cells grid ! nat (pos_y p)) [nat (pos_x p) := t]] \<rparr>"

definition directions :: "(int \<times> int) list" where
  "directions = [(0, -1), (1, 0), (0, 1), (-1, 0)]"

text \<open>\<open>getNeighbors\<close> returns the walkable cells next to a position, in the order up,
  right, down, left; the model returns their positions.\<close>

definition getNeighbors :: "Grid \<Rightarrow> Position \<Rightarrow> Position list" where
  "getNeighbors grid worldPosition =
     filter (\<lambda>newPos. case getCell grid newPos of
                         Some t \<Rightarrow> isWalkable t
                       | None \<Rightarrow> False)
       (map (\<lambda>(dx, dy). Position (pos_x worldPosition + dx) (pos_y worldPosition + dy))
          directions)"

text \<open>The positions \<open>for y < height: for x < width\<close> visits, in that order.\<close>

definition allPositions :: "nat \<Rightarrow> nat \<Rightarrow> Position list" where
  "allPositions w h =
     concat (map (\<lambda>y. map (\<lambda>x. Position (int x) (int y)) [0..<w]) [0..<h])"

definition resetStep :: "Position \<Rightarrow> Grid \<Rightarrow> Grid" where
  "resetStep p grid = setType grid p Empty"

definition Grid_reset :: "Grid \<Rightarrow> Grid" where
  "Grid_reset grid =
     fold resetStep (allPositions (worldWidth grid) (worldHeight grid)) grid"

definition resetPathStep :: "Position \<Rightarrow> Grid \<Rightarrow> Grid" where
  "resetPathStep p grid =
     (let cell = cells grid ! nat (pos_y p) ! nat (pos_x p)
      in if cell = Path \<or> cell = Visited \<or> cell = Target
         then setType grid p Empty else grid)"

definition resetPath :: "Grid \<Rightarrow> Grid" where
  "resetPath grid =
     fold resetPathStep (allPositions (worldWidth grid) (worldHeight grid)) grid"

text \<open>The array invariant \<open>initializeWorld\<close> establishes and every operation keeps.\<close>

definition wf_grid :: "Grid \<Rightarrow> bool" where
  "wf_grid grid =
     (length (cells grid) = worldHeight grid \<and>
      list_all (\<lambda>row. length row = worldWidth grid) (cells grid))"

section \<open>pathfinder.ts\<close>

text \<open>A search node. Its \<open>parent\<close> always is a node that has left the open list for
  good (the \<open>currentNode\<close> of an earlier iteration), and only nodes still in the open list
  are ever assigned to, so the chain of parents of a node never changes and is kept here
  as a value.\<close>

datatype CellNode =
  CellNode (node_position: Position) (node_f: int) (node_g: int) (node_h: int)
    (node_parent: "CellNode option")

definition heuristic :: "Position \<Rightarrow> Position \<Rightarrow> int" where
  "heuristic a b = \<bar>pos_x a - pos_x b\<bar> + \<bar>pos_y a - pos_y b\<bar>"

text \<open>\<open>reconstructPath\<close>: walk the parents, putting each position in front.\<close>

fun reconstructLoop :: "CellNode \<Rightarrow> Position list \<Rightarrow> Position list" where
  "reconstructLoop (CellNode p f g h None) path = p # path"
| "reconstructLoop (CellNode p f g h (Some parent)) path = reconstructLoop parent (p # path)"

definition reconstructPath :: "CellNode \<Rightarrow> Position list" where
  "reconstructPath endNode = reconstructLoop endNode []"

text \<open>The scan for the lowest \<open>f\<close>: the first index holding the least value.\<close>

definition lowestIndex :: "CellNode list \<Rightarrow> nat" where
  "lowestIndex openList =
     fold (\<lambda>i currentIndex.
             if node_f (openList ! i) < node_f (openList ! currentIndex) then i
             else currentIndex)
       [0..<length openList] 0"

text \<open>The visualization side effect on the node taken from the open list.\<close>

definition markVisited :: "Position \<Rightarrow> Position \<Rightarrow> Position \<Rightarrow> Grid \<Rightarrow> Grid" where
  "markVisited start endPos pos grid =
     (if pos \<noteq> start \<and> pos \<noteq> endPos
      then case getCell grid pos of
             Some t \<Rightarrow> if t \<noteq> Player \<and> t \<noteq> Target then setType grid pos Visited else grid
           | None \<Rightarrow> grid
      else grid)"

text \<open>The assignment to the first open node at a position (\<open>openList.find\<close> returns
  the first match).\<close>

fun updateNode :: "Position \<Rightarrow> (CellNode \<Rightarrow> CellNode) \<Rightarrow> CellNode list \<Rightarrow> CellNode list" where
  "updateNode p u [] = []"
| "updateNode p u (n # ns) =
     (if node_position n = p then u n # ns else n # updateNode p u ns)"

text \<open>The body of \<open>for (const neighborCell of neighbors)\<close>. The closed list is a map
  keyed by the string \<open>x,y\<close>, which names one position only; it is the list of the
  positions entered.\<close>

definition visitNeighbor ::
  "Position \<Rightarrow> CellNode \<Rightarrow> Position list \<Rightarrow> Position \<Rightarrow> CellNode list \<Rightarrow> CellNode list" where
  "visitNeighbor endPos currentNode closedList neighborPos openList =
     (if neighborPos \<in> set closedList then openList
      else let gScore = node_g currentNode + 1;
               hScore = heuristic neighborPos endPos;
               fScore = gScore + hScore
           in case find (\<lambda>node. node_position node = neighborPos) openList of
                Some openNode \<Rightarrow>
                  if node_g openNode \<le> gScore then openList
                  else updateNode neighborPos
                         (\<lambda>n. CellNode (node_position n) fScore gScore (node_h n)
                                 (Some currentNode))
                         openList
              | None \<Rightarrow>
                  openList @ [CellNode neighborPos fScore gScore hScore (Some currentNode)])"

text \<open>One iteration of the \<open>while\<close> loop for a current node that is not the goal:
  the node moves from the open to the closed list, is marked, and its neighbours are
  visited.\<close>

definition expand ::
  "Position \<Rightarrow> Position \<Rightarrow> nat \<Rightarrow> CellNode list \<Rightarrow> Position list \<Rightarrow> Grid
     \<Rightarrow> CellNode list \<times> Position list \<times> Grid" where
  "expand start endPos currentIndex openList closedList grid =
     (let currentNode = openList ! currentIndex;
          openList1 = take currentIndex openList @ drop (Suc currentIndex) openList;
          closedList1 = node_position currentNode # closedList;
          grid1 = markVisited start endPos (node_position currentNode) grid;
          neighbors = getNeighbors grid1 (node_position currentNode)
      in (fold (visitNeighbor endPos currentNode closedList1) neighbors openList1,
          closedList1, grid1))"

text \<open>The \<open>while (openList.length > 0)\<close> loop, with fuel: the first component of the
  result is \<open>None\<close> when the fuel ran out, \<open>Some None\<close> for the source's \<open>null\<close> and
  \<open>Some (Some path)\<close> for a path; the second is the grid as the search left it. The
  pauses after each mark (\<open>await\<close>) let other handlers run in the source; the model is
  the search on its own.\<close>

fun aStarLoop ::
  "nat \<Rightarrow> Position \<Rightarrow> Position \<Rightarrow> CellNode list \<Rightarrow> Position list \<Rightarrow> Grid
     \<Rightarrow> Position list option option \<times> Grid" where
  "aStarLoop 0 start endPos openList closedList grid = (None, grid)"
| "aStarLoop (Suc fuel) start endPos openList closedList grid =
     (if openList = [] then (Some None, grid)
      else let currentIndex = lowestIndex openList;
               currentNode = openList ! currentIndex
           in if node_position currentNode = endPos
              then (Some (Some (reconstructPath currentNode)), grid)
              else case expand start endPos currentIndex openList closedList grid of
                     (openList', closedList', grid') \<Rightarrow>
                       aStarLoop fuel start endPos openList' closedList' grid')"

definition aStar ::
  "nat \<Rightarrow> Position \<Rightarrow> Position \<Rightarrow> Grid \<Rightarrow> Position list option option \<times> Grid" where
  "aStar fuel start endPos grid =
     aStarLoop fuel start endPos [CellNode start 0 0 (heuristic start endPos) None] [] grid"

definition findPath ::
  "nat \<Rightarrow> Position \<Rightarrow> Position \<Rightarrow> Grid \<Rightarrow> Position list option option \<times> Grid" where
  "findPath fuel start endPos grid = aStar fuel start endPos grid"

text \<open>Paths: consecutive positions one axis-aligned unit step apart; a walk moreover
  stays on walkable cells of the grid.\<close>

definition unitStep :: "Position \<Rightarrow> Position \<Rightarrow> bool" where
  "unitStep a b = (\<bar>pos_x a - pos_x b\<bar> + \<bar>pos_y a - pos_y b\<bar> = 1)"

definition walkable :: "Grid \<Rightarrow> Position \<Rightarrow> bool" where
  "walkable grid p = (case getCell grid p of Some t \<Rightarrow> isWalkable t | None \<Rightarrow> False)"

definition walk :: "Grid \<Rightarrow> Position list \<Rightarrow> bool" where
  "walk grid ps = (ps \<noteq> [] \<and> successively unitStep ps \<and> list_all (walkable grid) ps)"

text \<open>The invariant of the open list: the chain of parents of a node, read from the
  root, starts at the start position and moves by unit steps.\<close>

definition pathFrom :: "Position \<Rightarrow> CellNode \<Rightarrow> bool" where
  "pathFrom start n =
     (hd (reconstructPath n) = start \<and> successively unitStep (reconstructPath n))"

text \<open>What every iteration of the search keeps: the grid keeps its shape and its walls
  (\<open>g0\<close> is the grid the search started on), no position is twice in the open list or
  twice in the closed list or in both, and every position in either is the start or a
  walkable cell.\<close>

definition sameWalls :: "Grid \<Rightarrow> Grid \<Rightarrow> bool" where
  "sameWalls g0 g =
     (wf_grid g \<and> worldWidth g = worldWidth g0 \<and> worldHeight g = worldHeight g0 \<and>
      (\<forall>p. walkable g p = walkable g0 p))"

definition frontierInv ::
  "Grid \<Rightarrow> Position \<Rightarrow> CellNode list \<Rightarrow> Position list \<Rightarrow> Grid \<Rightarrow> bool" where
  "frontierInv g0 s ol cl g =
     (sameWalls g0 g \<and> distinct (map node_position ol) \<and> distinct cl \<and>
      set (map node_position ol) \<inter> set cl = {} \<and>
      set (map node_position ol) \<union> set cl \<subseteq> insert s {p. walkable g0 p})"

text \<open>For the optimality of the search: \<open>reach g s p k\<close> says that a walk of \<open>k\<close>
  steps leads from \<open>s\<close> to \<open>p\<close>; an open node carries the walk its parents spell out,
  with \<open>g\<close> its number of steps and \<open>f = g + h\<close> (the start node is built with \<open>f = 0\<close>);
  \<open>handled ol q b\<close> says that the open list holds a node at \<open>q\<close> with \<open>g\<close> at most \<open>b\<close>.
  The invariant adds that every walkable neighbour of a closed position is closed or
  handled within one step more than any walk to that position takes.\<close>

definition reach :: "Grid \<Rightarrow> Position \<Rightarrow> Position \<Rightarrow> nat \<Rightarrow> bool" where
  "reach g s p k = (\<exists>ps. walk g ps \<and> hd ps = s \<and> last ps = p \<and> length ps = Suc k)"

definition nodeInv :: "Grid \<Rightarrow> Position \<Rightarrow> Position \<Rightarrow> CellNode \<Rightarrow> bool" where
  "nodeInv g0 s e n =
     (walk g0 (reconstructPath n) \<and> hd (reconstructPath n) = s \<and>
      node_g n = int (length (reconstructPath n)) - 1 \<and>
      node_f n \<le> node_g n + heuristic (node_position n) e \<and>
      (node_position n \<noteq> s \<longrightarrow> node_f n = node_g n + heuristic (node_position n) e))"

definition handled :: "CellNode list \<Rightarrow> Position \<Rightarrow> int \<Rightarrow> bool" where
  "handled ol q b = (\<exists>n\<in>set ol. node_position n = q \<and> node_g n \<le> b)"

definition optInv ::
  "Grid \<Rightarrow> Position \<Rightarrow> Position \<Rightarrow> CellNode list \<Rightarrow> Position list \<Rightarrow> bool" where
  "optInv g0 s e ol cl =
     ((\<forall>n\<in>set ol. nodeInv g0 s e n) \<and>
      (s \<in> set cl \<or> handled ol s 0) \<and>
      e \<notin> set cl \<and>
      (\<forall>p\<in>set cl. \<forall>q. unitStep p q \<and> walkable g0 q \<longrightarrow>
          q \<in> set cl \<or> (\<forall>k. reach g0 s p k \<longrightarrow> handled ol q (int k + 1))))"

definition childOf :: "CellNode \<Rightarrow> Position \<Rightarrow> Position \<Rightarrow> CellNode \<Rightarrow> bool" where
  "childOf c q e n =
     (node_position n = q \<and> node_g n = node_g c + 1 \<and>
      node_f n = node_g n + heuristic q e \<and> node_parent n = Some c)"

section \<open>app.ts: the movement queue\<close>

text \<open>The fields of \<open>PathfindingApp\<close> that the queue operations read and write.\<close>

record App =
  app_grid :: Grid
  currentTask :: "Position option"
  movementQueue :: "Position list"
  isRandomMode :: bool
  isMoving :: bool

text \<open>\<open>handleGridClick\<close> for a click on the cell element with data position \<open>p\<close>. The
  result is the state after the synchronous part, and whether the handler then enters
  \<open>processMovementQueue\<close> (it does so only when nothing is moving).\<close>

definition handleGridClick :: "Position \<Rightarrow> App \<Rightarrow> App \<times> bool" where
  "handleGridClick clickedPosition app =
     (if isRandomMode app then (app, False)
      else case getCell (app_grid app) clickedPosition of
             None \<Rightarrow> (app, False)
           | Some t \<Rightarrow>
               if t \<noteq> Wall \<and> t \<noteq> Player
               then (app \<lparr> movementQueue := movementQueue app @ [clickedPosition],
                           app_grid := setType (app_grid app) clickedPosition QueuedTarget \<rparr>,
                     \<not> isMoving app)
               else (app, False))"

definition removeTaskFromQueue :: "int \<Rightarrow> App \<Rightarrow> App" where
  "removeTaskFromQueue index app =
     (if 0 \<le> index \<and> index < int (length (movementQueue app))
      then let removedPosition = movementQueue app ! nat index;
               grid' = (case getCell (app_grid app) removedPosition of
                          Some t \<Rightarrow> if t = QueuedTarget
                                    then setType (app_grid app) removedPosition Empty
                                    else app_grid app
                        | None \<Rightarrow> app_grid app)
           in app \<lparr> app_grid := grid',
                    movementQueue := take (nat index) (movementQueue app)
                                     @ drop (nat index + 1) (movementQueue app) \<rparr>
      else app)"

text \<open>A click enqueues a destination when the clicked cell exists and is neither a wall
  nor the player.\<close>

definition clickable :: "Grid \<Rightarrow> Position \<Rightarrow> bool" where
  "clickable grid p = (\<exists>t. getCell grid p = Some t \<and> t \<noteq> Wall \<and> t \<noteq> Player)"

section \<open>Concrete inputs\<close>

definition tagGrid :: Grid where
  "tagGrid = \<lparr> worldWidth = 3, worldHeight = 2,
       cells = [[Player, Path, QueuedTarget], [Wall, PlayerTrail, Target]] \<rparr>"

definition pathGrid :: Grid where
  "pathGrid = \<lparr> worldWidth = 3, worldHeight = 3,
       cells = [[Player, Target, Empty], [Empty, Wall, Empty], [Empty, Empty, Target]] \<rparr>"

definition queueApp :: App where
  "queueApp = \<lparr> app_grid = \<lparr> worldWidth = 3, worldHeight = 2,
                   cells = [[Player, Empty, Empty], [Wall, Empty, Empty]] \<rparr>,
                currentTask = Some (Position 2 1), movementQueue = [],
                isRandomMode = False, isMoving = True \<rparr>"

section \<open>Rounding to a double\<close>

lemma bitlen_nonneg: "0 \<le> bitlen n"
proof (induction n rule: bitlen.induct)
  case (1 n)
  show ?case
  proof (cases "n \<le> 0")
    case True
    then show ?thesis by (subst bitlen.simps) simp
  next
    case False
    with 1 have "0 \<le> bitlen (n div 2)" by simp
    with False show ?thesis by (subst bitlen.simps) simp
  qed
qed

lemma bitlen_pos: "0 < n \<Longrightarrow> bitlen n = 1 + bitlen (n div 2)"
  by (subst bitlen.simps) simp

lemma bitlen_bounds: "0 < n \<Longrightarrow> 2 ^ nat (bitlen n - 1) \<le> n \<and> n < 2 ^ nat (bitlen n)"
proof (induction n rule: bitlen.induct)
  case (1 n)
  show ?case
  proof (cases "n = 1")
    case True
    have "bitlen 1 = 1" by (subst bitlen.simps, subst bitlen.simps) simp
    with True show ?thesis by simp
  next
    case False
    with 1 have h: "0 < n div 2" by simp
    with 1 have IH: "2 ^ nat (bitlen (n div 2) - 1) \<le> n div 2" "n div 2 < 2 ^ nat (bitlen (n div 2))"
      by auto
    have pos: "1 \<le> bitlen (n div 2)"
      using bitlen_pos [OF h] bitlen_nonneg [of "n div 2 div 2"] by simp
    have bl: "bitlen n = 1 + bitlen (n div 2)"
      using 1 bitlen_pos by simp
    have e1: "nat (bitlen n - 1) = Suc (nat (bitlen (n div 2) - 1))"
      using pos bl by simp
    have e2: "nat (bitlen n) = Suc (nat (bitlen (n div 2)))"
      using pos bl by simp
    show ?thesis unfolding e1 e2 using IH by auto
  qed
qed

lemma pow2_pos: "0 < pow2 e"
  by (simp add: pow2_def)

lemma pow2_Suc: "pow2 (e + 1) = 2 * pow2 e"
proof (cases "0 \<le> e")
  case True
  then show ?thesis by (simp add: pow2_def nat_add_distrib)
next
  case False
  then have "nat (- e) = Suc (nat (- (e + 1)))" by simp
  then show ?thesis using False by (simp add: pow2_def)
qed

lemma ilog2_bounds:
  assumes "0 < q"
  shows "pow2 (ilog2 q) \<le> q \<and> q < pow2 (ilog2 q + 1)"
proof (cases "1 \<le> q")
  case True
  then have f: "0 < \<lfloor>q\<rfloor>" by simp
  define b where "b = bitlen \<lfloor>q\<rfloor>"
  have b1: "1 \<le> b"
    using bitlen_pos [OF f] bitlen_nonneg [of "\<lfloor>q\<rfloor> div 2"] by (simp add: b_def)
  from bitlen_bounds [OF f] have lo: "2 ^ nat (b - 1) \<le> \<lfloor>q\<rfloor>" and hi: "\<lfloor>q\<rfloor> < 2 ^ nat b"
    by (simp_all add: b_def)
  have "(of_int (2 ^ nat (b - 1)) :: rat) \<le> q" using lo by (simp only: le_floor_iff)
  then have 1: "(2 :: rat) ^ nat (b - 1) \<le> q" by simp
  have "q < (of_int (2 ^ nat b) :: rat)" using hi by (simp only: floor_less_iff)
  then have 2: "q < (2 :: rat) ^ nat b" by simp
  have "ilog2 q = b - 1" using True by (simp add: ilog2_def b_def)
  then show ?thesis using 1 2 b1 by (simp add: pow2_def)
next
  case False
  with assms have q1: "q < 1" "0 < q" by simp_all
  then have "1 < 1 / q" by simp
  then have c2: "2 \<le> \<lceil>1 / q\<rceil>" by (simp add: le_ceiling_iff)
  define c where "c = \<lceil>1 / q\<rceil> - 1"
  define b where "b = bitlen c"
  have c0: "0 < c" using c2 by (simp add: c_def)
  have b1: "1 \<le> b"
    using bitlen_pos [OF c0] bitlen_nonneg [of "c div 2"] by (simp add: b_def)
  from bitlen_bounds [OF c0] have lo: "2 ^ nat (b - 1) \<le> c" and hi: "c < 2 ^ nat b"
    by (simp_all add: b_def)
  have "\<lceil>1 / q\<rceil> \<le> 2 ^ nat b" using hi by (simp add: c_def)
  then have "1 / q \<le> of_int (2 ^ nat b)" by (simp only: ceiling_le_iff)
  then have "1 / q \<le> 2 ^ nat b" by simp
  then have 1: "1 / 2 ^ nat b \<le> q"
    using q1 by (simp add: field_simps)
  have "2 ^ nat (b - 1) < \<lceil>1 / q\<rceil>" using lo by (simp add: c_def)
  then have "(of_int (2 ^ nat (b - 1)) :: rat) < 1 / q" by (simp only: less_ceiling_iff)
  then have "(2 :: rat) ^ nat (b - 1) < 1 / q" by simp
  then have 2: "q < 1 / 2 ^ nat (b - 1)"
    using q1 by (simp add: field_simps)
  have il: "ilog2 q = - b" using False by (simp add: ilog2_def b_def c_def)
  have "pow2 (- b) = 1 / 2 ^ nat b" using b1 by (simp add: pow2_def)
  moreover have "pow2 (- b + 1) = 1 / 2 ^ nat (b - 1)"
  proof (cases "b = 1")
    case True then show ?thesis by (simp add: pow2_def)
  next
    case False
    with b1 have "\<not> 0 \<le> - b + 1" "nat (- (- b + 1)) = nat (b - 1)" by simp_all
    then show ?thesis by (simp add: pow2_def)
  qed
  ultimately show ?thesis using 1 2 il by simp
qed


lemma pow2_powi: "pow2 e = 2 powi e"
  by (simp add: pow2_def power_int_def inverse_eq_divide power_one_over)

lemma roundEven_bounds: "\<lfloor>q\<rfloor> \<le> roundEven q \<and> roundEven q \<le> \<lceil>q\<rceil>"
proof -
  have "q - of_int \<lfloor>q\<rfloor> \<noteq> 0 \<Longrightarrow> \<lceil>q\<rceil> = \<lfloor>q\<rfloor> + 1"
    by (metis ceiling_altdef eq_iff_diff_eq_0)
  moreover have "\<lfloor>q\<rfloor> \<le> \<lceil>q\<rceil>" by (rule floor_le_ceiling)
  ultimately show ?thesis
    by (auto simp: roundEven_def Let_def)
qed

lemma toDouble_pos:
  assumes "0 < q"
  shows "toDouble q = of_int (roundEven (q / pow2 (ilog2 q - 52))) * pow2 (ilog2 q - 52)"
  using assms by (simp add: toDouble_def Let_def)

lemma toDouble_minus: "toDouble (- q) = - toDouble q"
  by (simp add: toDouble_def Let_def sgn_minus)

lemma toDouble_pos_upper:
  assumes q: "0 < q" and le: "q \<le> of_int N" and N: "N < 2 ^ 53"
  shows "toDouble q \<le> of_int N"
proof -
  define e where "e = ilog2 q - 52"
  have "pow2 (ilog2 q) \<le> q" using ilog2_bounds [OF q] by simp
  also have "q < of_int (2 ^ 53)" using le N by (meson le_less_trans of_int_less_iff)
  finally have "(2::rat) powi (ilog2 q) < 2 powi 53" by (simp add: pow2_powi)
  then have "ilog2 q < 53" by (rule power_int_le_imp_less_exp [rotated]) simp_all
  then have e0: "e \<le> 0" by (simp add: e_def)
  define k where "k = nat (- e)"
  have pe: "pow2 e = 1 / 2 ^ k"
    using e0 by (cases "e = 0") (simp_all add: pow2_def k_def)
  have "q * 2 ^ k \<le> of_int N * 2 ^ k" using le by simp
  also have "\<dots> = of_int (N * 2 ^ k)" by simp
  finally have "\<lceil>q * 2 ^ k\<rceil> \<le> N * 2 ^ k" by (simp only: ceiling_le_iff)
  with roundEven_bounds [of "q * 2 ^ k"] have "roundEven (q * 2 ^ k) \<le> N * 2 ^ k" by simp
  then have "(of_int (roundEven (q * 2 ^ k)) :: rat) \<le> of_int (N * 2 ^ k)"
    by (simp only: of_int_le_iff)
  then have "(of_int (roundEven (q * 2 ^ k)) :: rat) / 2 ^ k \<le> of_int N"
    by (simp add: field_simps)
  then show ?thesis
    using toDouble_pos [OF q] pe by (simp add: e_def [symmetric])
qed

lemma toDouble_pos_lower:
  assumes q: "0 < q" and le: "of_int N \<le> q" and N: "N < 2 ^ 53"
  shows "of_int N \<le> toDouble q"
proof -
  define e where "e = ilog2 q - 52"
  define m where "m = q / pow2 e"
  have td: "toDouble q = of_int (roundEven m) * pow2 e"
    using toDouble_pos [OF q] by (simp add: e_def m_def)
  show ?thesis
  proof (cases "e \<le> 0")
    case True
    define k where "k = nat (- e)"
    have pe: "pow2 e = 1 / 2 ^ k"
      using True by (cases "e = 0") (simp_all add: pow2_def k_def)
    have mk: "m = q * 2 ^ k" by (simp add: m_def pe)
    have "of_int (N * 2 ^ k) = of_int N * (2::rat) ^ k" by simp
    also have "\<dots> \<le> q * 2 ^ k" using le by simp
    finally have "N * 2 ^ k \<le> \<lfloor>q * 2 ^ k\<rfloor>" by (simp only: le_floor_iff)
    with roundEven_bounds [of "q * 2 ^ k"] have "N * 2 ^ k \<le> roundEven m" by (simp add: mk)
    then have "(of_int (N * 2 ^ k) :: rat) \<le> of_int (roundEven m)"
      by (simp only: of_int_le_iff)
    then have "of_int N \<le> (of_int (roundEven m) :: rat) / 2 ^ k"
      by (simp add: field_simps)
    then show ?thesis using td pe by simp
  next
    case False
    then have e1: "1 \<le> e" by simp
    have "pow2 (ilog2 q) \<le> q" using ilog2_bounds [OF q] by simp
    then have "pow2 (ilog2 q) / pow2 e \<le> m"
      by (simp add: m_def divide_right_mono pow2_pos less_imp_le)
    moreover have "pow2 (ilog2 q) / pow2 e = 2 ^ 52"
      by (simp add: pow2_powi e_def power_int_diff)
    moreover define M :: int where "M = 2 ^ 52"
    ultimately have "(of_int M :: rat) \<le> m" by simp
    then have "M \<le> \<lfloor>m\<rfloor>" by (simp only: le_floor_iff)
    with roundEven_bounds [of m] have "M \<le> roundEven m" by simp
    then have r: "(of_int M :: rat) \<le> of_int (roundEven m)"
      by (simp only: of_int_le_iff)
    have "(2::rat) powi 1 \<le> 2 powi e" using e1 by (intro power_int_increasing) simp_all
    then have p: "2 \<le> pow2 e" by (simp add: pow2_powi)
    have "(of_int M :: rat) * 2 \<le> of_int (roundEven m) * pow2 e"
      using r p by (intro mult_mono) (simp_all add: M_def)
    then have "(of_int (M * 2) :: rat) \<le> toDouble q" using td by simp
    moreover have "(of_int N :: rat) < of_int (M * 2)"
      using N unfolding of_int_less_iff by (simp add: M_def)
    ultimately show ?thesis by simp
  qed
qed

lemma toDouble_of_int:
  assumes "\<bar>n\<bar> < 2 ^ 53"
  shows "toDouble (of_int n) = of_int n"
proof -
  have pos: "toDouble (of_int k) = of_int k" if "0 < k" "k < 2 ^ 53" for k
  proof -
    have "0 < (of_int k :: rat)" using that by simp
    from toDouble_pos_upper [OF this _ that(2), of ] toDouble_pos_lower [OF this _ that(2)]
    show ?thesis by simp
  qed
  consider "n = 0" | "0 < n" | "n < 0" by linarith
  then show ?thesis
  proof cases
    case 1 then show ?thesis by (simp add: toDouble_def)
  next
    case 2 with assms pos show ?thesis by simp
  next
    case 3
    with assms pos [of "- n"] have "toDouble (of_int (- n)) = of_int (- n)" by simp
    then show ?thesis using toDouble_minus [of "of_int n"] by simp
  qed
qed

lemma toDouble_nonpos_range:
  assumes "of_int N \<le> q" "q \<le> 0" "- (2 ^ 53) < N"
  shows "of_int N \<le> toDouble q \<and> toDouble q \<le> 0"
proof (cases "q = 0")
  case True
  with assms show ?thesis by (simp add: toDouble_def)
next
  case False
  with assms have q: "0 < - q" by simp
  have le: "- q \<le> of_int (- N)" using assms by simp
  have N: "- N < 2 ^ 53" using assms by simp
  have "toDouble (- q) \<le> of_int (- N)" by (rule toDouble_pos_upper [OF q le N])
  moreover have "of_int 0 \<le> toDouble (- q)"
    by (rule toDouble_pos_lower [OF q]) (use q in simp_all)
  ultimately show ?thesis by (simp add: toDouble_minus)
qed

section \<open>The random generator\<close>

lemma unsigned_rat_range: "0 \<le> (unsigned w :: rat) \<and> (unsigned w :: rat) < 4294967296"
  for w :: "32 word"
proof -
  have "uint w < 4294967296" using uint_lt2p [of w] by simp
  then have "(of_int (uint w) :: rat) < of_int 4294967296" by (simp only: of_int_less_iff)
  moreover have "(0 :: rat) \<le> of_int (uint w)" by (simp only: of_int_0_le_iff uint_ge_0)
  ultimately show ?thesis by simp
qed

lemma random_range: "0 \<le> fst (random r) \<and> fst (random r) < 1"
  using unsigned_rat_range by (simp add: random_def Let_def)

lemma rng_seed_random [simp]: "rng_seed (snd (random r)) = rng_seed r"
  by (simp add: random_def Let_def)

lemma rng_seed_randoms [simp]: "rng_seed (snd (randoms n r)) = rng_seed r"
  by (induction n arbitrary: r) (simp_all add: split_beta Let_def)

lemma reset_eq_new:
  "rng_seed r = seedValue s \<Longrightarrow> reset r = newSeededRandom s"
  by (cases r) (simp add: reset_def newSeededRandom_def)

text \<open>
  Claim C7. Two generators built with the same numeric seed give the same outputs, call by
  call; and a generator that has made any number \<open>k\<close> of calls gives, after \<open>reset()\<close>,
  the same \<open>n\<close> outputs as one fresh from the constructor.
\<close>

theorem rng_reproducibility:
  "(let a = newSeededRandom (SeedNumber s); b = newSeededRandom (SeedNumber s)
    in fst (randoms n a) = fst (randoms n b) \<and>
       fst (randoms n (reset (snd (randoms k a)))) = fst (randoms n a))"
proof -
  have "rng_seed (snd (randoms k (newSeededRandom (SeedNumber s)))) = seedValue (SeedNumber s)"
    by (simp add: newSeededRandom_def)
  then show ?thesis
    by (simp add: Let_def reset_eq_new)
qed

text \<open>
  Claim C5, amended. \<open>randomInt(min, max)\<close> with \<open>min > max\<close> does not fail: the source
  has no range check and no error to raise. The call silently returns a number, after
  exactly one call of \<open>random()\<close>. The theorem adds which number, where the arithmetic
  of doubles is exact: for whole-number arguments within \<open>\<plusminus> 2 ^ 52\<close> it is an
  integer \<open>v\<close> with \<open>max < v \<le> min\<close>.
\<close>

theorem randomInt_reversed_range:
  assumes "hi < lo"
  shows "(\<exists>v. randomInt lo hi r = (v, snd (random r))) \<and>
         (lo \<in> \<int> \<and> hi \<in> \<int> \<and> - (2 ^ 52) < hi \<and> lo < 2 ^ 52 \<longrightarrow>
            (\<exists>k. fst (randomInt lo hi r) = of_int k \<and> hi < of_int k \<and> of_int k \<le> lo))"
proof
  show "\<exists>v. randomInt lo hi r = (v, snd (random r))"
    by (simp add: randomInt_def split_beta Let_def)
  show "lo \<in> \<int> \<and> hi \<in> \<int> \<and> - (2 ^ 52) < hi \<and> lo < 2 ^ 52 \<longrightarrow>
            (\<exists>k. fst (randomInt lo hi r) = of_int k \<and> hi < of_int k \<and> of_int k \<le> lo)"
  proof
    assume h: "lo \<in> \<int> \<and> hi \<in> \<int> \<and> - (2 ^ 52) < hi \<and> lo < 2 ^ 52"
    then obtain a b :: int where ab: "lo = of_int a" "hi = of_int b"
      by (auto elim!: Ints_cases)
    have "(of_int b :: rat) < of_int a" "(of_int (- (2 ^ 52)) :: rat) < of_int b"
      "(of_int a :: rat) < of_int (2 ^ 52)"
      using h assms ab by simp_all
    then have r: "b < a" "- (2 ^ 52) < b" "a < 2 ^ 52"
      unfolding of_int_less_iff by simp_all
    define x where "x = fst (random r)"
    define n where "n = b - a + 1"
    have x: "0 \<le> x" "x < 1" using random_range [of r] by (simp_all add: x_def)
    have n: "n \<le> 0" "- (2 ^ 53) < n" using r by (simp_all add: n_def)
    have "toDouble (of_int (b - a)) = (of_int (b - a) :: rat)"
      using r by (intro toDouble_of_int) simp
    then have s1: "subD (of_int b) (of_int a) = of_int b - of_int a" by (simp add: subD_def)
    have "toDouble (of_int n) = (of_int n :: rat)"
      using n by (intro toDouble_of_int) simp
    then have s2: "addD (of_int b - of_int a) 1 = of_int n" by (simp add: addD_def n_def)
    have "x * of_int n \<le> 0" using x n by (simp add: mult_nonneg_nonpos)
    moreover have "of_int n \<le> x * of_int n"
    proof -
      have "1 * (of_int n :: rat) \<le> x * of_int n"
        using x n by (intro mult_right_mono_neg) simp_all
      then show ?thesis by simp
    qed
    ultimately have "of_int n \<le> toDouble (x * of_int n) \<and> toDouble (x * of_int n) \<le> 0"
      using n by (intro toDouble_nonpos_range) simp_all
    then have fl: "n \<le> \<lfloor>mulD x (of_int n)\<rfloor>" "\<lfloor>mulD x (of_int n)\<rfloor> \<le> 0"
      by (simp_all add: mulD_def le_floor_iff floor_le_iff)
    define k where "k = \<lfloor>mulD x (of_int n)\<rfloor> + a"
    have k: "b < k" "k \<le> a" using fl by (simp_all add: k_def n_def)
    then have "\<bar>k\<bar> < 2 ^ 53" using r by simp
    then have "toDouble (of_int k) = (of_int k :: rat)" by (rule toDouble_of_int)
    then have s3: "addD (of_int \<lfloor>mulD x (of_int n)\<rfloor>) (of_int a) = of_int k"
      by (simp add: addD_def k_def)
    have "fst (randomInt lo hi r) = of_int k"
      by (simp add: randomInt_def split_beta Let_def ab s1 s2 s3 x_def [symmetric])
    moreover have "hi < of_int k" "of_int k \<le> lo" using k by (simp_all add: ab)
    ultimately show "\<exists>k. fst (randomInt lo hi r) = of_int k \<and> hi < of_int k \<and> of_int k \<le> lo"
      by blast
  qed
qed

theorem randomInt_reversed_range_witness:
  "(2::rat) < 5 \<and> (5::rat) \<in> \<int> \<and> (2::rat) \<in> \<int> \<and> - (2 ^ 52) < (2::rat) \<and> (5::rat) < 2 ^ 52 \<and>
   (\<exists>v. randomInt 5 2 (newSeededRandom (SeedNumber 7)) =
          (v, snd (random (newSeededRandom (SeedNumber 7))))) \<and>
   (\<exists>k. fst (randomInt 5 2 (newSeededRandom (SeedNumber 7))) = of_int k \<and>
        (2::rat) < of_int k \<and> (of_int k :: rat) \<le> 5)"
  using randomInt_reversed_range [of 2 5 "newSeededRandom (SeedNumber 7)"] by simp

text \<open>
  Claim C5 as stated fails: with \<open>min = 5 > max = 2\<close> on the generator seeded with 1,
  \<open>random()\<close> is \<open>2693262067 / 2 ^ 32\<close>, and the call returns
  \<open>floor(0.627 * (- 2)) + 5 = 3\<close> instead of failing with \<open>InvalidRange\<close>.
\<close>

theorem randomInt_reversed_range_counterexample:
  "(2::rat) < 5 \<and>
   random (newSeededRandom (SeedNumber 1)) =
     (2693262067 / 4294967296, \<lparr>rng_seed = 1, rng_currentSeed = 1831565814\<rparr>) \<and>
   randomInt 5 2 (newSeededRandom (SeedNumber 1)) =
     (3, \<lparr>rng_seed = 1, rng_currentSeed = 1831565814\<rparr>)"
  by code_simp

section \<open>The cell array\<close>

lemma worldWidth_setType [simp]: "worldWidth (setType g p t) = worldWidth g"
  and worldHeight_setType [simp]: "worldHeight (setType g p t) = worldHeight g"
  by (simp_all add: setType_def)

lemma isWithinWorldBounds_setType [simp]:
  "isWithinWorldBounds (setType g p t) q = isWithinWorldBounds g q"
  by (simp add: isWithinWorldBounds_def)

lemma wf_grid_setType [simp]: "wf_grid g \<Longrightarrow> wf_grid (setType g p t)"
  unfolding wf_grid_def setType_def list_all_length
  by (cases "nat (pos_y p) < length (cells g)") (auto simp: nth_list_update)

lemma getCell_setType:
  assumes "wf_grid g" "isWithinWorldBounds g p"
  shows "getCell (setType g p t) q = (if q = p then Some t else getCell g q)"
proof (cases "isWithinWorldBounds g q")
  case False
  with assms show ?thesis by (auto simp: getCell_def)
next
  case True
  from assms(1) have len: "length (cells g) = worldHeight g"
    and row: "\<And>i. i < worldHeight g \<Longrightarrow> length (cells g ! i) = worldWidth g"
    by (auto simp: wf_grid_def list_all_length)
  from True assms(2) have b: "nat (pos_y p) < worldHeight g" "nat (pos_x p) < worldWidth g"
    "nat (pos_y q) < worldHeight g" "nat (pos_x q) < worldWidth g"
    by (auto simp: isWithinWorldBounds_def)
  have eq: "q = p \<longleftrightarrow> nat (pos_x q) = nat (pos_x p) \<and> nat (pos_y q) = nat (pos_y p)"
    using True assms(2) by (cases p; cases q) (auto simp: isWithinWorldBounds_def)
  have inb: "isWithinWorldBounds (setType g p t) q"
    using True by simp
  show ?thesis
    unfolding getCell_def using inb True b len row eq
    by (auto simp: setType_def nth_list_update)
qed

lemma getCell_Some_iff: "(\<exists>t. getCell g p = Some t) \<longleftrightarrow> isWithinWorldBounds g p"
  by (simp add: getCell_def)

lemma getCell_None_iff: "getCell g p = None \<longleftrightarrow> \<not> isWithinWorldBounds g p"
  by (simp add: getCell_def)

lemma allPositions_product:
  "allPositions w h = map (\<lambda>(y, x). Position (int x) (int y)) (List.product [0..<h] [0..<w])"
  by (simp add: allPositions_def product_concat_map map_concat comp_def)

lemma set_allPositions:
  "set (allPositions w h) = {p. 0 \<le> pos_x p \<and> pos_x p < int w \<and> 0 \<le> pos_y p \<and> pos_y p < int h}"
proof -
  have "p \<in> set (allPositions w h)"
    if a: "0 \<le> pos_x p" "pos_x p < int w" "0 \<le> pos_y p" "pos_y p < int h" for p
  proof -
    have "p = (\<lambda>(y, x). Position (int x) (int y)) (nat (pos_y p), nat (pos_x p))"
      using a by (cases p) simp
    moreover have "(nat (pos_y p), nat (pos_x p)) \<in> set (List.product [0..<h] [0..<w])"
      using a by auto
    ultimately show ?thesis
      unfolding allPositions_product set_map by (rule image_eqI)
  qed
  then show ?thesis by (auto simp: allPositions_product)
qed

lemma distinct_allPositions: "distinct (allPositions w h)"
  unfolding allPositions_product
  by (auto simp: distinct_map distinct_product inj_on_def)

lemma set_allPositions_bounds:
  "p \<in> set (allPositions (worldWidth g) (worldHeight g)) \<longleftrightarrow> isWithinWorldBounds g p"
  by (auto simp: set_allPositions isWithinWorldBounds_def)

section \<open>Clearing the search tags\<close>

lemma resetPathStep_props:
  assumes "wf_grid g" "isWithinWorldBounds g p"
  shows "wf_grid (resetPathStep p g)"
    and "worldWidth (resetPathStep p g) = worldWidth g"
    and "worldHeight (resetPathStep p g) = worldHeight g"
    and "getCell (resetPathStep p g) q =
          (if q = p then (case getCell g p of
                            Some t \<Rightarrow> Some (if t = Path \<or> t = Visited \<or> t = Target then Empty else t)
                          | None \<Rightarrow> None)
           else getCell g q)"
  using assms by (auto simp: resetPathStep_def Let_def getCell_setType) (auto simp: getCell_def)

lemma fold_resetPathStep:
  assumes "wf_grid g" "distinct ps" "\<forall>p\<in>set ps. isWithinWorldBounds g p"
  shows "wf_grid (fold resetPathStep ps g) \<and>
         worldWidth (fold resetPathStep ps g) = worldWidth g \<and>
         worldHeight (fold resetPathStep ps g) = worldHeight g \<and>
         (\<forall>q. getCell (fold resetPathStep ps g) q =
           (if q \<in> set ps then (case getCell g q of
                            Some t \<Rightarrow> Some (if t = Path \<or> t = Visited \<or> t = Target then Empty else t)
                          | None \<Rightarrow> None)
            else getCell g q))"
  using assms
proof (induction ps arbitrary: g)
  case Nil
  then show ?case by simp
next
  case (Cons p ps)
  let ?g = "resetPathStep p g"
  have p: "isWithinWorldBounds g p" using Cons.prems by simp
  note st = resetPathStep_props [OF Cons.prems(1) p]
  have "\<forall>q\<in>set ps. isWithinWorldBounds ?g q"
    using Cons.prems(3) st(2,3) by (simp add: isWithinWorldBounds_def)
  with Cons.IH [of ?g] st(1) Cons.prems(2)
  have IH: "wf_grid (fold resetPathStep ps ?g)"
    "worldWidth (fold resetPathStep ps ?g) = worldWidth ?g"
    "worldHeight (fold resetPathStep ps ?g) = worldHeight ?g"
    "\<And>q. getCell (fold resetPathStep ps ?g) q =
           (if q \<in> set ps then (case getCell ?g q of
                            Some t \<Rightarrow> Some (if t = Path \<or> t = Visited \<or> t = Target then Empty else t)
                          | None \<Rightarrow> None)
            else getCell ?g q)"
    by simp_all
  show ?case
    using IH(1,2,3) st(2,3) Cons.prems(2)
    by (auto simp: IH(4) st(4))
qed

lemma resetPath_getCell:
  assumes "wf_grid g"
  shows "getCell (resetPath g) q =
     (case getCell g q of
        Some t \<Rightarrow> Some (if t = Path \<or> t = Visited \<or> t = Target then Empty else t)
      | None \<Rightarrow> None)"
proof -
  let ?ps = "allPositions (worldWidth g) (worldHeight g)"
  have "\<forall>p\<in>set ?ps. isWithinWorldBounds g p" by (simp add: set_allPositions_bounds)
  from fold_resetPathStep [OF assms distinct_allPositions this]
  have *: "getCell (resetPath g) q =
      (if isWithinWorldBounds g q then (case getCell g q of
                            Some t \<Rightarrow> Some (if t = Path \<or> t = Visited \<or> t = Target then Empty else t)
                          | None \<Rightarrow> None)
            else getCell g q)"
    by (simp add: resetPath_def set_allPositions_bounds)
  show ?thesis
  proof (cases "isWithinWorldBounds g q")
    case True
    with * show ?thesis by simp
  next
    case False
    then have "getCell g q = None" by (simp add: getCell_def)
    with * False show ?thesis by simp
  qed
qed

text \<open>
  Claim C6, amended. \<open>resetPath\<close> sets every cell tagged \<open>Path\<close>, \<open>Visited\<close> or
  \<open>Target\<close> back to \<open>Empty\<close> and leaves every cell with any other tag (\<open>Empty\<close>,
  \<open>Wall\<close>, \<open>Player\<close>, \<open>PlayerTrail\<close>, \<open>QueuedTarget\<close>) as it is; after it runs no
  cell carries \<open>Path\<close>, \<open>Visited\<close> or \<open>Target\<close>.
\<close>

theorem resetPath_clears_search_tags:
  assumes "wf_grid grid" and "getCell grid p = Some t"
  shows "getCell (resetPath grid) p =
           Some (if t = Path \<or> t = Visited \<or> t = Target then Empty else t) \<and>
         (\<forall>q. getCell (resetPath grid) q \<notin> {Some Path, Some Visited, Some Target})"
  using assms by (auto simp: resetPath_getCell split: option.splits)

text \<open>
  Claim C6 as stated fails: a cell tagged \<open>QueuedTarget\<close> and a cell tagged
  \<open>PlayerTrail\<close> keep their tags through \<open>resetPath\<close>.
\<close>

theorem resetPath_keeps_QueuedTarget_PlayerTrail:
  "getCell tagGrid (Position 2 0) = Some QueuedTarget \<and>
   getCell (resetPath tagGrid) (Position 2 0) = Some QueuedTarget \<and>
   getCell tagGrid (Position 1 1) = Some PlayerTrail \<and>
   getCell (resetPath tagGrid) (Position 1 1) = Some PlayerTrail"
  by code_simp

theorem resetPath_clears_search_tags_witness:
  "wf_grid tagGrid \<and> getCell tagGrid (Position 1 0) = Some Path \<and>
   getCell (resetPath tagGrid) (Position 1 0) = Some Empty \<and>
   getCell (resetPath tagGrid) (Position 2 1) \<notin> {Some Path, Some Visited, Some Target}"
proof -
  have w: "wf_grid tagGrid" by (simp add: wf_grid_def tagGrid_def)
  have c: "getCell tagGrid (Position 1 0) = Some Path"
    by (simp add: getCell_def isWithinWorldBounds_def tagGrid_def)
  from resetPath_clears_search_tags [OF w c] w c show ?thesis by simp
qed

section \<open>The movement queue\<close>

lemma handleGridClick_queued:
  assumes "wf_grid (app_grid app)" "\<not> isRandomMode app" "isMoving app" "clickable (app_grid app) p"
  shows "handleGridClick p app =
           (app \<lparr> movementQueue := movementQueue app @ [p],
                  app_grid := setType (app_grid app) p QueuedTarget \<rparr>, False)"
  using assms by (auto simp: handleGridClick_def clickable_def)

lemma clickable_setType:
  assumes "wf_grid g" "clickable g p" "clickable g q"
  shows "clickable (setType g p QueuedTarget) q"
proof -
  from assms(2) have "isWithinWorldBounds g p"
    by (auto simp: clickable_def getCell_def split: if_splits)
  from getCell_setType [OF assms(1) this] assms(3) show ?thesis
    by (auto simp: clickable_def)
qed

lemma clickable_bounds: "clickable g p \<Longrightarrow> isWithinWorldBounds g p"
  by (auto simp: clickable_def getCell_def split: if_splits)

text \<open>
  Claim C9. While a navigation is under way (so that a click only enqueues), clicks on
  three cells \<open>p1\<close>, \<open>p2\<close>, \<open>p3\<close> that accept a click fill the empty queue with
  \<open>[p1, p2, p3]\<close>; removing index 1 then leaves \<open>[p1, p3]\<close> and the cell at \<open>p2\<close> is
  \<open>Empty\<close> again; removing at an index outside the queue changes nothing.
\<close>

theorem queue_integrity:
  assumes wf: "wf_grid (app_grid app)"
    and mode: "\<not> isRandomMode app" "isMoving app"
    and empty: "movementQueue app = []"
    and p1: "clickable (app_grid app) p1"
    and p2: "clickable (app_grid app) p2"
    and p3: "clickable (app_grid app) p3"
    and app3: "app3 = fst (handleGridClick p3 (fst (handleGridClick p2 (fst (handleGridClick p1 app)))))"
  shows "movementQueue app3 = [p1, p2, p3] \<and>
         movementQueue (removeTaskFromQueue 1 app3) = [p1, p3] \<and>
         getCell (app_grid (removeTaskFromQueue 1 app3)) p2 = Some Empty \<and>
         (\<forall>i. i < 0 \<or> 3 \<le> i \<longrightarrow> removeTaskFromQueue i app3 = app3)"
proof -
  define a1 where "a1 = fst (handleGridClick p1 app)"
  define a2 where "a2 = fst (handleGridClick p2 a1)"
  have step: "wf_grid (app_grid b) \<and> \<not> isRandomMode b \<and> isMoving b \<and>
      movementQueue b = movementQueue a @ [p] \<and>
      app_grid b = setType (app_grid a) p QueuedTarget"
    if "wf_grid (app_grid a)" "\<not> isRandomMode a" "isMoving a" "clickable (app_grid a) p"
      "b = fst (handleGridClick p a)" for a b p
    using that by (simp add: handleGridClick_queued)
  note s1 = step [OF wf mode p1 a1_def]
  have q2: "clickable (app_grid a1) p2" and q3: "clickable (app_grid a1) p3"
    using clickable_setType [OF wf p1] p2 p3 s1 by simp_all
  from s1 have wf1: "wf_grid (app_grid a1)" and m1: "\<not> isRandomMode a1" "isMoving a1"
    by blast+
  note s2 = step [OF wf1 m1 q2 a2_def]
  from s2 have wf2: "wf_grid (app_grid a2)" and m2: "\<not> isRandomMode a2" "isMoving a2"
    by blast+
  have r3: "clickable (app_grid a2) p3"
    using clickable_setType [OF wf1 q2 q3] s2 by simp
  have a3: "app3 = fst (handleGridClick p3 a2)" by (simp add: app3 a1_def a2_def)
  note s3 = step [OF wf2 m2 r3 a3]
  have queue: "movementQueue app3 = [p1, p2, p3]" using s1 s2 s3 empty by simp
  have b2: "isWithinWorldBounds (app_grid a1) p2" using q2 by (rule clickable_bounds)
  have b3: "isWithinWorldBounds (app_grid a2) p3" using r3 by (rule clickable_bounds)
  have "getCell (app_grid a2) p2 = Some QueuedTarget"
    using s2 by (simp add: getCell_setType [OF wf1 b2])
  then have cell2: "getCell (app_grid app3) p2 = Some QueuedTarget"
    using s3 by (simp add: getCell_setType [OF wf2 b3])
  from s3 have wf3: "wf_grid (app_grid app3)" by blast
  have b2': "isWithinWorldBounds (app_grid app3) p2"
    using cell2 by (simp add: getCell_def split: if_splits)
  have "getCell (app_grid (removeTaskFromQueue 1 app3)) p2 = Some Empty"
    using cell2 queue by (simp add: removeTaskFromQueue_def getCell_setType [OF wf3 b2'])
  moreover have "movementQueue (removeTaskFromQueue 1 app3) = [p1, p3]"
    using queue by (simp add: removeTaskFromQueue_def Let_def)
  moreover have "\<forall>i. i < 0 \<or> 3 \<le> i \<longrightarrow> removeTaskFromQueue i app3 = app3"
    using queue by (auto simp: removeTaskFromQueue_def)
  ultimately show ?thesis using queue by simp
qed

theorem queue_integrity_witness:
  "wf_grid (app_grid queueApp) \<and> \<not> isRandomMode queueApp \<and> isMoving queueApp \<and>
   movementQueue queueApp = [] \<and>
   clickable (app_grid queueApp) (Position 1 0) \<and>
   clickable (app_grid queueApp) (Position 2 0) \<and>
   clickable (app_grid queueApp) (Position 1 1) \<and>
   (let app3 = fst (handleGridClick (Position 1 1)
                 (fst (handleGridClick (Position 2 0)
                    (fst (handleGridClick (Position 1 0) queueApp)))))
    in movementQueue app3 = [Position 1 0, Position 2 0, Position 1 1] \<and>
       movementQueue (removeTaskFromQueue 1 app3) = [Position 1 0, Position 1 1] \<and>
       getCell (app_grid (removeTaskFromQueue 1 app3)) (Position 2 0) = Some Empty \<and>
       removeTaskFromQueue 3 app3 = app3 \<and> removeTaskFromQueue (- 1) app3 = app3)"
proof -
  have wf: "wf_grid (app_grid queueApp)" by (simp add: wf_grid_def queueApp_def)
  have mode: "\<not> isRandomMode queueApp" "isMoving queueApp" "movementQueue queueApp = []"
    by (simp_all add: queueApp_def)
  have c: "clickable (app_grid queueApp) (Position 1 0)"
    "clickable (app_grid queueApp) (Position 2 0)"
    "clickable (app_grid queueApp) (Position 1 1)"
    by (simp_all add: clickable_def getCell_def isWithinWorldBounds_def queueApp_def)
  from queue_integrity [OF wf mode c refl] wf mode c
  show ?thesis by (simp add: Let_def)
qed

section \<open>The search leaves the player and the target alone\<close>

lemma markVisited_wf [simp]: "wf_grid g \<Longrightarrow> wf_grid (markVisited s e q g)"
  by (simp add: markVisited_def split: option.splits)

lemma markVisited_dims [simp]:
  "worldWidth (markVisited s e q g) = worldWidth g"
  "worldHeight (markVisited s e q g) = worldHeight g"
  by (simp_all add: markVisited_def split: option.splits)

lemma markVisited_getCell:
  assumes "wf_grid g"
  shows "getCell (markVisited s e q g) p =
     (if p = q \<and> q \<noteq> s \<and> q \<noteq> e \<and> getCell g q \<noteq> None \<and>
         getCell g q \<noteq> Some Player \<and> getCell g q \<noteq> Some Target
      then Some Visited else getCell g p)"
proof (cases "getCell g q")
  case None
  then show ?thesis by (simp add: markVisited_def)
next
  case (Some t)
  then have "isWithinWorldBounds g q" by (simp add: getCell_def split: if_splits)
  from getCell_setType [OF assms this] Some show ?thesis
    by (auto simp: markVisited_def)
qed

lemma expand_grid:
  "snd (snd (expand s e i ol cl g)) = markVisited s e (node_position (ol ! i)) g"
  by (simp add: expand_def Let_def)

lemma aStarLoop_frame:
  assumes "wf_grid g" "getCell g p = Some Player \<or> getCell g p = Some Target"
  shows "getCell (snd (aStarLoop fuel s e ol cl g)) p = getCell g p"
  using assms
proof (induction fuel arbitrary: ol cl g)
  case 0
  then show ?case by simp
next
  case (Suc fuel)
  let ?i = "lowestIndex ol"
  let ?g = "markVisited s e (node_position (ol ! ?i)) g"
  have wf: "wf_grid ?g" using Suc.prems(1) by simp
  have same: "getCell ?g p = getCell g p"
    using Suc.prems by (auto simp: markVisited_getCell)
  obtain ol' cl' where ex: "expand s e ?i ol cl g = (ol', cl', ?g)"
    using expand_grid [of s e ?i ol cl g] by (cases "expand s e ?i ol cl g") auto
  have "getCell (snd (aStarLoop fuel s e ol' cl' ?g)) p = getCell ?g p"
    using Suc.IH [OF wf] Suc.prems(2) same by simp
  then show ?case
    using same by (simp add: Let_def ex)
qed

text \<open>
  Claim C10. The search changes the grid only by marking the node it takes from the open
  list, and never when that cell is tagged \<open>Player\<close> or \<open>Target\<close>: a cell with one of
  these tags keeps it through every single mark and through the whole search, however
  long it runs.
\<close>

theorem visited_keeps_player_and_target:
  assumes "wf_grid grid"
    and "getCell grid p = Some Player \<or> getCell grid p = Some Target"
  shows "getCell (markVisited start endPos q grid) p = getCell grid p \<and>
         getCell (snd (findPath fuel start endPos grid)) p = getCell grid p"
  using assms aStarLoop_frame [OF assms]
  by (auto simp: findPath_def aStar_def markVisited_getCell)

lemma findPath_pathGrid:
  "findPath 20 (Position 0 0) (Position 2 2) pathGrid =
     (Some (Some [Position 0 0, Position 1 0, Position 2 0, Position 2 1, Position 2 2]),
      \<lparr> worldWidth = 3, worldHeight = 3,
        cells = [[Player, Target, Visited], [Visited, Wall, Visited],
                 [Visited, Visited, Target]] \<rparr>)"
  by code_simp

theorem visited_keeps_player_and_target_witness:
  "wf_grid pathGrid \<and> getCell pathGrid (Position 1 0) = Some Target \<and>
   getCell (markVisited (Position 0 0) (Position 2 2) (Position 1 0) pathGrid) (Position 1 0)
     = Some Target \<and>
   getCell (snd (findPath 20 (Position 0 0) (Position 2 2) pathGrid)) (Position 1 0)
     = Some Target"
proof -
  have w: "wf_grid pathGrid" by (simp add: wf_grid_def pathGrid_def)
  have c: "getCell pathGrid (Position 1 0) = Some Target"
    by (simp add: getCell_def isWithinWorldBounds_def pathGrid_def)
  from visited_keeps_player_and_target [OF w disjI2 [OF c]] w c show ?thesis by simp
qed

section \<open>The shape of a returned path\<close>

lemma reconstructLoop_append: "reconstructLoop n acc = reconstructLoop n [] @ acc"
proof (induction n arbitrary: acc)
  case (CellNode p f g h parent)
  show ?case
  proof (cases parent)
    case None
    then show ?thesis by simp
  next
    case (Some par)
    have IH: "reconstructLoop par a = reconstructLoop par [] @ a" for a
      by (rule CellNode.IH) (simp add: Some)
    have "reconstructLoop (CellNode p f g h parent) acc = reconstructLoop par (p # acc)"
      using Some by simp
    also have "\<dots> = reconstructLoop par [] @ (p # acc)" by (rule IH)
    also have "\<dots> = (reconstructLoop par [] @ [p]) @ acc" by simp
    also have "reconstructLoop par [] @ [p] = reconstructLoop par [p]" by (rule IH [symmetric])
    also have "reconstructLoop par [p] = reconstructLoop (CellNode p f g h parent) []"
      using Some by simp
    finally show ?thesis .
  qed
qed

lemma reconstructPath_root [simp]: "reconstructPath (CellNode p f g h None) = [p]"
  by (simp add: reconstructPath_def)

lemma reconstructPath_child [simp]:
  "reconstructPath (CellNode p f g h (Some par)) = reconstructPath par @ [p]"
  using reconstructLoop_append [of par "[p]"] by (simp add: reconstructPath_def)

lemma reconstructPath_nonempty [simp]: "reconstructPath n \<noteq> []"
  by (cases n; cases "node_parent n") auto

lemma last_reconstructPath [simp]: "last (reconstructPath n) = node_position n"
  by (cases n; cases "node_parent n") auto

lemma length_reconstructPath: "1 \<le> length (reconstructPath n)"
  using reconstructPath_nonempty [of n] by (cases "reconstructPath n") auto

lemma pathFrom_child:
  assumes "pathFrom s c" "unitStep (node_position c) q"
  shows "pathFrom s (CellNode q f g h (Some c))"
  using assms by (simp add: pathFrom_def successively_append_iff)

lemma set_updateNode:
  "n' \<in> set (updateNode p u ns) \<Longrightarrow> n' \<in> set ns \<or> (\<exists>n\<in>set ns. node_position n = p \<and> n' = u n)"
  by (induction ns) (auto split: if_splits)

lemma visitNeighbor_pathFrom:
  assumes "\<forall>n\<in>set ol. pathFrom s n" "pathFrom s c" "unitStep (node_position c) q"
  shows "\<forall>n\<in>set (visitNeighbor e c cl q ol). pathFrom s n"
proof
  fix n assume n: "n \<in> set (visitNeighbor e c cl q ol)"
  show "pathFrom s n"
  proof (cases "n \<in> set ol")
    case True
    with assms show ?thesis by simp
  next
    case False
    with n have "\<exists>f g h. n = CellNode q f g h (Some c)"
      by (auto simp: visitNeighbor_def Let_def split: if_splits option.splits
               dest!: set_updateNode)
    with pathFrom_child [OF assms(2,3)] show ?thesis by auto
  qed
qed

lemma getNeighbors_subset:
  "set (getNeighbors g p) \<subseteq>
     {Position (pos_x p) (pos_y p - 1), Position (pos_x p + 1) (pos_y p),
      Position (pos_x p) (pos_y p + 1), Position (pos_x p - 1) (pos_y p)}"
proof -
  have "set (getNeighbors g p) \<subseteq>
      set (map (\<lambda>(dx, dy). Position (pos_x p + dx) (pos_y p + dy)) directions)"
    unfolding getNeighbors_def by (rule filter_is_subset)
  then show ?thesis by (simp add: directions_def)
qed

lemma getNeighbors_unitStep: "q \<in> set (getNeighbors g p) \<Longrightarrow> unitStep p q"
  using getNeighbors_subset [of g p] by (auto simp: unitStep_def)

lemma fold_visitNeighbor_pathFrom:
  assumes "\<forall>n\<in>set ol. pathFrom s n" "pathFrom s c" "\<forall>q\<in>set qs. unitStep (node_position c) q"
  shows "\<forall>n\<in>set (fold (visitNeighbor e c cl) qs ol). pathFrom s n"
  using assms
proof (induction qs arbitrary: ol)
  case Nil
  then show ?case by simp
next
  case (Cons q qs)
  have "\<forall>n\<in>set (visitNeighbor e c cl q ol). pathFrom s n"
    using Cons.prems by (intro visitNeighbor_pathFrom) simp_all
  from Cons.IH [OF this] Cons.prems show ?case by simp
qed

lemma lowestIndex_less: "ol \<noteq> [] \<Longrightarrow> lowestIndex ol < length ol"
proof -
  have "fold (\<lambda>i c. if node_f (ol ! i) < node_f (ol ! c) then i else c) is c0 < length ol"
    if "c0 < length ol" "\<forall>i\<in>set is. i < length ol" for "is" c0
    using that by (induction "is" arbitrary: c0) auto
  from this [of 0 "[0..<length ol]"] show "ol \<noteq> [] \<Longrightarrow> lowestIndex ol < length ol"
    by (simp add: lowestIndex_def)
qed

lemma expand_pathFrom:
  assumes "\<forall>n\<in>set ol. pathFrom s n" "i < length ol" "expand s e i ol cl g = (ol', cl', g')"
  shows "\<forall>n\<in>set ol'. pathFrom s n"
proof -
  let ?c = "ol ! i"
  have c: "pathFrom s ?c" using assms(1,2) by simp
  have rest: "\<forall>n\<in>set (take i ol @ drop (Suc i) ol). pathFrom s n"
    using assms(1) by (auto dest: in_set_takeD in_set_dropD)
  have nb: "\<forall>q\<in>set (getNeighbors (markVisited s e (node_position ?c) g) (node_position ?c)).
      unitStep (node_position ?c) q"
    by (simp add: getNeighbors_unitStep)
  from fold_visitNeighbor_pathFrom [OF rest c nb] assms(3) show ?thesis
    by (auto simp: expand_def Let_def)
qed

lemma aStarLoop_pathFrom:
  assumes "fst (aStarLoop fuel s e ol cl g) = Some (Some path)" "\<forall>n\<in>set ol. pathFrom s n"
  shows "hd path = s \<and> last path = e \<and> successively unitStep path \<and> path \<noteq> []"
  using assms
proof (induction fuel arbitrary: ol cl g)
  case 0
  then show ?case by simp
next
  case (Suc fuel)
  from Suc.prems(1) have ne: "ol \<noteq> []" by (auto split: if_splits)
  let ?i = "lowestIndex ol"
  have i: "?i < length ol" using ne by (rule lowestIndex_less)
  show ?case
  proof (cases "node_position (ol ! ?i) = e")
    case True
    with Suc.prems(1) ne have "path = reconstructPath (ol ! ?i)" by (simp add: Let_def)
    moreover have "pathFrom s (ol ! ?i)" using Suc.prems(2) i by simp
    ultimately show ?thesis using True by (simp add: pathFrom_def)
  next
    case False
    obtain ol' cl' g' where ex: "expand s e ?i ol cl g = (ol', cl', g')"
      by (cases "expand s e ?i ol cl g") auto
    from Suc.prems(1) ne False ex
    have "fst (aStarLoop fuel s e ol' cl' g') = Some (Some path)" by (simp add: Let_def)
    from Suc.IH [OF this expand_pathFrom [OF Suc.prems(2) i ex]] show ?thesis .
  qed
qed

lemma manhattan_triangle:
  "heuristic a c \<le> heuristic a b + heuristic b c"
  by (simp add: heuristic_def)

lemma unitStep_heuristic: "unitStep a b \<longleftrightarrow> heuristic a b = 1"
  by (simp add: unitStep_def heuristic_def)

lemma stepwise_manhattan:
  assumes "successively unitStep ps" "ps \<noteq> []"
  shows "heuristic (hd ps) (last ps) + 1 \<le> int (length ps)"
  using assms
proof (induction ps rule: induct_list012)
  case 1
  then show ?case by simp
next
  case (2 p)
  then show ?case by (simp add: heuristic_def)
next
  case (3 p q ps)
  then have "heuristic q (last (q # ps)) + 1 \<le> int (length (q # ps))" by simp
  moreover have "heuristic p q = 1" using 3 by (simp add: unitStep_heuristic)
  ultimately show ?case
    using manhattan_triangle [of p "last (q # ps)" q] by simp
qed

text \<open>
  Claim C3. A path that \<open>findPath\<close> returns starts with the start position, ends with
  the goal, moves by exactly one axis-aligned unit step between consecutive positions,
  and so has at least as many positions as the Manhattan distance between start and goal.
\<close>

theorem findPath_is_stepwise_path:
  assumes "fst (findPath fuel start endPos grid) = Some (Some path)"
  shows "hd path = start \<and> last path = endPos \<and> path \<noteq> [] \<and>
         successively unitStep path \<and>
         heuristic start endPos \<le> int (length path)"
proof -
  have init: "\<forall>n\<in>set [CellNode start 0 0 (heuristic start endPos) None]. pathFrom start n"
    by (simp add: pathFrom_def)
  from aStarLoop_pathFrom [OF _ init] assms
  have p: "hd path = start" "last path = endPos" "successively unitStep path" "path \<noteq> []"
    by (simp_all add: findPath_def aStar_def)
  from stepwise_manhattan [OF p(3,4)] p show ?thesis by simp
qed

theorem findPath_is_stepwise_path_witness:
  "fst (findPath 20 (Position 0 0) (Position 2 2) pathGrid) =
     Some (Some [Position 0 0, Position 1 0, Position 2 0, Position 2 1, Position 2 2]) \<and>
   successively unitStep
     [Position 0 0, Position 1 0, Position 2 0, Position 2 1, Position 2 2] \<and>
   heuristic (Position 0 0) (Position 2 2) \<le> 5"
proof -
  have e: "fst (findPath 20 (Position 0 0) (Position 2 2) pathGrid) =
     Some (Some [Position 0 0, Position 1 0, Position 2 0, Position 2 1, Position 2 2])"
    by (simp add: findPath_pathGrid)
  from findPath_is_stepwise_path [OF e] e show ?thesis by simp
qed

section \<open>Termination of the search, and a goal that is a wall\<close>

lemma walkable_bounds: "walkable g p \<Longrightarrow> isWithinWorldBounds g p"
  by (auto simp: walkable_def getCell_def split: if_splits)

lemma unitStep_cases:
  "unitStep p q \<longleftrightarrow>
     q \<in> {Position (pos_x p) (pos_y p - 1), Position (pos_x p + 1) (pos_y p),
          Position (pos_x p) (pos_y p + 1), Position (pos_x p - 1) (pos_y p)}"
  by (cases p; cases q) (auto simp: unitStep_def)

lemma getNeighbors_iff:
  "q \<in> set (getNeighbors g p) \<longleftrightarrow> unitStep p q \<and> walkable g q"
  by (auto simp: getNeighbors_def directions_def unitStep_cases walkable_def)

lemma markVisited_walkable:
  assumes "wf_grid g" "q = s \<or> walkable g q"
  shows "walkable (markVisited s e q g) p = walkable g p"
  using assms
  by (auto simp: walkable_def markVisited_getCell isWalkable_def split: option.splits)

lemma sameWalls_markVisited:
  assumes "sameWalls g0 g" "q = s \<or> walkable g0 q"
  shows "sameWalls g0 (markVisited s e q g)"
  using assms markVisited_walkable [of g q s e]
  by (auto simp: sameWalls_def)

lemma map_position_updateNode:
  "(\<And>n. node_position (u n) = node_position n) \<Longrightarrow>
   map node_position (updateNode p u ns) = map node_position ns"
  by (induction ns) auto

lemma find_position_None:
  "find (\<lambda>node. node_position node = q) ol = None \<longleftrightarrow> q \<notin> set (map node_position ol)"
  by (auto simp: find_None_iff)

lemma positions_visitNeighbor:
  "map node_position (visitNeighbor e c cl q ol) =
     (if q \<in> set cl \<or> q \<in> set (map node_position ol) then map node_position ol
      else map node_position ol @ [q])"
proof (cases "find (\<lambda>node. node_position node = q) ol")
  case None
  then show ?thesis
    using find_position_None [of q ol] by (simp add: visitNeighbor_def Let_def)
next
  case (Some n)
  then have "q \<in> set (map node_position ol)"
    using find_position_None [of q ol] by auto
  with Some show ?thesis
    by (simp add: visitNeighbor_def Let_def map_position_updateNode)
qed

lemma positions_fold_visitNeighbor:
  "distinct (map node_position ol) \<Longrightarrow>
   distinct (map node_position (fold (visitNeighbor e c cl) qs ol)) \<and>
   set (map node_position (fold (visitNeighbor e c cl) qs ol)) =
     set (map node_position ol) \<union> (set qs - set cl)"
proof (induction qs arbitrary: ol)
  case Nil
  then show ?case by simp
next
  case (Cons q qs)
  let ?ol = "visitNeighbor e c cl q ol"
  have d: "distinct (map node_position ?ol)"
    using Cons.prems by (simp add: positions_visitNeighbor)
  have s: "set (map node_position ?ol) = set (map node_position ol) \<union> ({q} - set cl)"
    by (auto simp: positions_visitNeighbor)
  from Cons.IH [OF d] s show ?case by auto
qed

lemma positions_remove:
  assumes "distinct (map node_position ol)" "i < length ol"
  shows "distinct (map node_position (take i ol @ drop (Suc i) ol))"
    and "set (map node_position (take i ol @ drop (Suc i) ol)) =
           set (map node_position ol) - {node_position (ol ! i)}"
proof -
  define xs where "xs = take i ol"
  define ys where "ys = drop (Suc i) ol"
  have ol: "ol = xs @ ol ! i # ys"
    using assms(2) by (simp add: id_take_nth_drop xs_def ys_def)
  have "distinct (map node_position (xs @ ol ! i # ys))"
    using assms(1) ol by simp
  then have d: "distinct (map node_position (xs @ ys))"
    and n: "node_position (ol ! i) \<notin> set (map node_position (xs @ ys))"
    by auto
  have "set (map node_position ol) = set (map node_position (xs @ ol ! i # ys))"
    using ol by simp
  then have "set (map node_position ol) =
      insert (node_position (ol ! i)) (set (map node_position (xs @ ys)))"
    by simp
  with n have "set (map node_position (xs @ ys)) =
      set (map node_position ol) - {node_position (ol ! i)}"
    by blast
  then show "set (map node_position (take i ol @ drop (Suc i) ol)) =
           set (map node_position ol) - {node_position (ol ! i)}"
    unfolding xs_def ys_def .
  from d show "distinct (map node_position (take i ol @ drop (Suc i) ol))"
    unfolding xs_def ys_def .
qed

lemma expand_eq:
  "expand s e i ol cl g =
     (fold (visitNeighbor e (ol ! i) (node_position (ol ! i) # cl))
        (getNeighbors (markVisited s e (node_position (ol ! i)) g) (node_position (ol ! i)))
        (take i ol @ drop (Suc i) ol),
      node_position (ol ! i) # cl,
      markVisited s e (node_position (ol ! i)) g)"
  by (simp add: expand_def Let_def)

lemma expand_frontierInv:
  assumes inv: "frontierInv g0 s ol cl g" and i: "i < length ol"
    and ex: "expand s e i ol cl g = (ol', cl', g')"
  shows "frontierInv g0 s ol' cl' g'" and "cl' = node_position (ol ! i) # cl"
    and "set (map node_position ol') \<subseteq> set (map node_position ol) \<union> {q. walkable g0 q}"
proof -
  define c where "c = ol ! i"
  define p where "p = node_position c"
  define ol1 where "ol1 = take i ol @ drop (Suc i) ol"
  define g1 where "g1 = markVisited s e p g"
  define qs where "qs = getNeighbors g1 p"
  have e1: "ol' = fold (visitNeighbor e c (p # cl)) qs ol1"
    using arg_cong [OF ex, of fst] unfolding expand_eq c_def p_def ol1_def g1_def qs_def
    by simp
  have e2: "cl' = p # cl"
    using arg_cong [OF ex, of "\<lambda>t. fst (snd t)"] unfolding expand_eq c_def p_def by simp
  have e3: "g' = g1"
    using arg_cong [OF ex, of "\<lambda>t. snd (snd t)"] unfolding expand_eq c_def p_def g1_def by simp
  note eq = e1 e2 e3
  from inv have sw: "sameWalls g0 g" and d: "distinct (map node_position ol)"
    and dc: "distinct cl" and disj: "set (map node_position ol) \<inter> set cl = {}"
    and sub: "set (map node_position ol) \<union> set cl \<subseteq> insert s {p. walkable g0 p}"
    by (simp_all add: frontierInv_def)
  have pin: "p \<in> set (map node_position ol)" using i by (simp add: p_def c_def)
  then have pw: "p = s \<or> walkable g0 p" using sub by auto
  have sw1: "sameWalls g0 g1" unfolding g1_def using sw pw by (rule sameWalls_markVisited)
  have qs: "set qs \<subseteq> {q. walkable g0 q}"
    using sw1 by (auto simp: qs_def getNeighbors_iff sameWalls_def)
  have rm: "distinct (map node_position ol1)"
    "set (map node_position ol1) = set (map node_position ol) - {p}"
    using positions_remove [OF d i] by (simp_all add: ol1_def p_def c_def)
  from positions_fold_visitNeighbor [OF rm(1), of e c "p # cl" qs]
  have fo: "distinct (map node_position ol')"
    "set (map node_position ol') = set (map node_position ol1) \<union> (set qs - set (p # cl))"
    unfolding e1 by simp_all
  have pcl: "p \<notin> set cl" using pin disj by auto
  have pos: "set (map node_position ol') =
      (set (map node_position ol) - {p}) \<union> (set qs - set (p # cl))"
    using fo(2) rm(2) by simp
  have 1: "distinct cl'" using dc pcl eq(2) by simp
  have 2: "set (map node_position ol') \<inter> set cl' = {}"
    unfolding pos eq(2) using disj by auto
  have 3: "set (map node_position ol') \<union> set cl' \<subseteq> insert s {p. walkable g0 p}"
    unfolding pos eq(2) using sub qs pw by auto
  show "frontierInv g0 s ol' cl' g'"
    unfolding frontierInv_def using sw1 fo(1) 1 2 3 eq(3) by simp
  show "set (map node_position ol') \<subseteq> set (map node_position ol) \<union> {q. walkable g0 q}"
    unfolding pos using qs by auto
  show "cl' = node_position (ol ! i) # cl" using eq(2) by (simp add: p_def c_def)
qed

lemma length_allPositions: "length (allPositions w h) = w * h"
  by (simp add: allPositions_product)

lemma closed_bound:
  assumes "distinct cl" "set cl \<subseteq> insert s {p. walkable g0 p}"
  shows "length cl \<le> worldWidth g0 * worldHeight g0 + 1"
proof -
  let ?A = "set (allPositions (worldWidth g0) (worldHeight g0))"
  have "set cl \<subseteq> insert s ?A"
    using assms(2) walkable_bounds [of g0] by (auto simp: set_allPositions_bounds)
  then have "card (set cl) \<le> card (insert s ?A)"
    by (intro card_mono) simp_all
  also have "\<dots> \<le> Suc (card ?A)" by (simp add: card_insert_if)
  also have "card ?A = worldWidth g0 * worldHeight g0"
    using distinct_card [OF distinct_allPositions] by (simp add: length_allPositions)
  finally show ?thesis using distinct_card [OF assms(1)] by simp
qed

lemma aStarLoop_wall_goal:
  assumes "frontierInv g0 s ol cl g" "e \<notin> set (map node_position ol)" "\<not> walkable g0 e"
    and "worldWidth g0 * worldHeight g0 + 1 < fuel + length cl"
  shows "fst (aStarLoop fuel s e ol cl g) = Some None"
  using assms
proof (induction fuel arbitrary: ol cl g)
  case 0
  from "0.prems"(1) have "length cl \<le> worldWidth g0 * worldHeight g0 + 1"
    by (intro closed_bound) (auto simp: frontierInv_def)
  with "0.prems"(4) show ?case by simp
next
  case (Suc fuel)
  show ?case
  proof (cases "ol = []")
    case True
    then show ?thesis by simp
  next
    case False
    let ?i = "lowestIndex ol"
    have i: "?i < length ol" using False by (rule lowestIndex_less)
    then have ne: "node_position (ol ! ?i) \<noteq> e" using Suc.prems(2) by auto
    obtain ol' cl' g' where ex: "expand s e ?i ol cl g = (ol', cl', g')"
      by (cases "expand s e ?i ol cl g") auto
    note st = expand_frontierInv [OF Suc.prems(1) i ex]
    have a: "e \<notin> set (map node_position ol')"
      using st(3) Suc.prems(2,3) by auto
    have b: "worldWidth g0 * worldHeight g0 + 1 < fuel + length cl'"
      using st(2) Suc.prems(4) by simp
    have "fst (aStarLoop fuel s e ol' cl' g') = Some None"
      by (rule Suc.IH [OF st(1) a Suc.prems(3) b])
    then show ?thesis using False ne ex by (simp add: Let_def)
  qed
qed

text \<open>
  Claim C8. When the goal cell is a wall and is not the start, \<open>findPath\<close> terminates
  (fuel for one iteration per cell of the world, and two more, is enough) and returns
  \<open>null\<close>; the model has no failing branch, as the source reads cells only through the
  bounds check of \<open>getCell\<close>.
\<close>

theorem findPath_wall_goal_returns_null:
  assumes "wf_grid grid" and "getCell grid endPos = Some Wall" and "start \<noteq> endPos"
    and "worldWidth grid * worldHeight grid + 2 \<le> fuel"
  shows "fst (findPath fuel start endPos grid) = Some None"
proof -
  have a: "frontierInv grid start [CellNode start 0 0 (heuristic start endPos) None] [] grid"
    using assms(1) by (simp add: frontierInv_def sameWalls_def)
  have b: "\<not> walkable grid endPos"
    using assms(2) by (simp add: walkable_def isWalkable_def)
  have c: "endPos \<notin> set (map node_position [CellNode start 0 0 (heuristic start endPos) None])"
    using assms(3) by simp
  have d: "worldWidth grid * worldHeight grid + 1 < fuel + length ([] :: Position list)"
    using assms(4) by simp
  show ?thesis
    unfolding findPath_def aStar_def by (rule aStarLoop_wall_goal [OF a c b d])
qed

theorem findPath_wall_goal_returns_null_witness:
  "wf_grid pathGrid \<and> getCell pathGrid (Position 1 1) = Some Wall \<and>
   Position 0 0 \<noteq> Position 1 1 \<and>
   worldWidth pathGrid * worldHeight pathGrid + 2 \<le> 20 \<and>
   fst (findPath 20 (Position 0 0) (Position 1 1) pathGrid) = Some None"
proof -
  have w: "wf_grid pathGrid" by (simp add: wf_grid_def pathGrid_def)
  have c: "getCell pathGrid (Position 1 1) = Some Wall"
    by (simp add: getCell_def isWithinWorldBounds_def pathGrid_def)
  have n: "Position 0 0 \<noteq> Position 1 1" by simp
  have f: "worldWidth pathGrid * worldHeight pathGrid + 2 \<le> 20" by (simp add: pathGrid_def)
  from findPath_wall_goal_returns_null [OF w c n f] w c f show ?thesis by simp
qed

section \<open>The search returns a shortest path\<close>

lemma successively_take: "successively P ps \<Longrightarrow> successively P (take n ps)"
  using successively_append_iff [of P "take n ps" "drop n ps"] by simp

lemma successively_nth:
  assumes "successively P ps" "Suc i < length ps"
  shows "P (ps ! i) (ps ! Suc i)"
proof -
  have "last (take (Suc i) ps) = ps ! i"
    using assms(2) by (simp add: take_Suc_conv_app_nth)
  moreover have "hd (drop (Suc i) ps) = ps ! Suc i"
    using assms(2) by (simp add: hd_drop_conv_nth)
  ultimately show ?thesis
    using successively_append_iff [of P "take (Suc i) ps" "drop (Suc i) ps"] assms by auto
qed

lemma first_outside:
  assumes "ps \<noteq> []" "last ps \<notin> C"
  shows "\<exists>j<length ps. ps ! j \<notin> C \<and> (\<forall>i<j. ps ! i \<in> C)"
proof -
  define Q where "Q j \<longleftrightarrow> j < length ps \<and> ps ! j \<notin> C" for j
  define m where "m = (LEAST j. Q j)"
  have "Q (length ps - 1)" using assms by (simp add: Q_def last_conv_nth)
  then have Qm: "Q m" unfolding m_def by (rule LeastI)
  have "ps ! i \<in> C" if i: "i < m" for i
  proof -
    from i have "\<not> Q i" unfolding m_def by (rule not_less_Least)
    moreover have "i < length ps" using i Qm by (simp add: Q_def)
    ultimately show ?thesis by (simp add: Q_def)
  qed
  with Qm have "m < length ps \<and> ps ! m \<notin> C \<and> (\<forall>i<m. ps ! i \<in> C)"
    by (simp add: Q_def)
  then show ?thesis by (rule_tac x = m in exI)
qed

lemma walk_prefix_reach:
  assumes "walk g ps" "j < length ps"
  shows "reach g (hd ps) (ps ! j) j"
proof -
  let ?qs = "take (Suc j) ps"
  have "walk g ?qs"
    using assms unfolding walk_def list_all_iff
    by (auto intro: successively_take dest: in_set_takeD)
  moreover have "hd ?qs = hd ps" using assms(2) by (cases ps) auto
  moreover have "last ?qs = ps ! j" using assms(2) by (simp add: take_Suc_conv_app_nth)
  moreover have "length ?qs = Suc j" using assms(2) by simp
  ultimately show ?thesis unfolding reach_def by blast
qed

lemma heuristic_consistent:
  assumes "successively unitStep ps" "i + d < length ps"
  shows "heuristic (ps ! i) e \<le> int d + heuristic (ps ! (i + d)) e"
  using assms(2)
proof (induction d)
  case 0
  then show ?case by simp
next
  case (Suc d)
  then have IH: "heuristic (ps ! i) e \<le> int d + heuristic (ps ! (i + d)) e" by simp
  have "unitStep (ps ! (i + d)) (ps ! Suc (i + d))"
    using successively_nth [OF assms(1), of "i + d"] Suc.prems by simp
  then have "heuristic (ps ! (i + d)) (ps ! Suc (i + d)) = 1" by (simp add: unitStep_heuristic)
  with manhattan_triangle [of "ps ! (i + d)" e "ps ! Suc (i + d)"] IH
  show ?case by simp
qed

lemma heuristic_nonneg: "0 \<le> heuristic a b"
  by (simp add: heuristic_def)

lemma lowestIndex_min:
  assumes "n \<in> set ol"
  shows "node_f (ol ! lowestIndex ol) \<le> node_f n"
proof -
  define step where "step = (\<lambda>i c. if node_f (ol ! i) < node_f (ol ! c) then i else c)"
  have gen: "node_f (ol ! fold step is c0) \<le> node_f (ol ! c0) \<and>
             (\<forall>i\<in>set is. node_f (ol ! fold step is c0) \<le> node_f (ol ! i))" for "is" c0
  proof (induction "is" arbitrary: c0)
    case Nil
    then show ?case by simp
  next
    case (Cons a "is")
    from Cons [of "step a c0"] show ?case
      by (auto simp: step_def split: if_splits)
  qed
  from assms obtain k where "k < length ol" "ol ! k = n" by (auto simp: in_set_conv_nth)
  with gen [of "[0..<length ol]" 0] show ?thesis
    by (auto simp: lowestIndex_def step_def)
qed


lemma updateNode_cases:
  assumes "n \<in> set ns"
  shows "n \<in> set (updateNode p u ns) \<or>
         (find (\<lambda>m. node_position m = p) ns = Some n \<and> u n \<in> set (updateNode p u ns))"
  using assms by (induction ns) auto

lemma updateNode_found:
  "find (\<lambda>m. node_position m = p) ns = Some m \<Longrightarrow> u m \<in> set (updateNode p u ns)"
  by (induction ns) (auto split: if_splits)

lemma find_position_Some:
  "find (\<lambda>m. node_position m = q) ol = Some n \<Longrightarrow> n \<in> set ol \<and> node_position n = q"
  by (auto simp: find_Some_iff in_set_conv_nth)

lemma visitNeighbor_cases:
  "visitNeighbor e c cl q ol = ol \<or>
   (\<exists>x. visitNeighbor e c cl q ol = ol @ [x]) \<or>
   (\<exists>m. find (\<lambda>m. node_position m = q) ol = Some m \<and> node_g c + 1 < node_g m \<and>
        visitNeighbor e c cl q ol =
          updateNode q (\<lambda>n. CellNode (node_position n) (node_g c + 1 + heuristic q e)
                               (node_g c + 1) (node_h n) (Some c)) ol)"
proof (cases "q \<in> set cl")
  case True
  then show ?thesis by (simp add: visitNeighbor_def)
next
  case False
  show ?thesis
  proof (cases "find (\<lambda>m. node_position m = q) ol")
    case None
    with False show ?thesis by (simp add: visitNeighbor_def Let_def)
  next
    case (Some m)
    with False show ?thesis
      by (cases "node_g m \<le> node_g c + 1") (simp_all add: visitNeighbor_def Let_def)
  qed
qed

lemma handled_visitNeighbor_mono:
  assumes "handled ol q b"
  shows "handled (visitNeighbor e c cl q' ol) q b"
proof -
  from assms obtain n where n: "n \<in> set ol" "node_position n = q" "node_g n \<le> b"
    by (auto simp: handled_def)
  define u where "u = (\<lambda>n. CellNode (node_position n) (node_g c + 1 + heuristic q' e)
      (node_g c + 1) (node_h n) (Some c))"
  from visitNeighbor_cases [of e c cl q' ol]
  consider (same) "visitNeighbor e c cl q' ol = ol"
    | (app) x where "visitNeighbor e c cl q' ol = ol @ [x]"
    | (upd) m where "find (\<lambda>m. node_position m = q') ol = Some m" "node_g c + 1 < node_g m"
        "visitNeighbor e c cl q' ol = updateNode q' u ol"
    unfolding u_def by blast
  then show ?thesis
  proof cases
    case same
    with assms show ?thesis by simp
  next
    case app
    with n show ?thesis by (auto simp: handled_def)
  next
    case upd
    from updateNode_cases [OF n(1), of q' u]
    show ?thesis
    proof
      assume "n \<in> set (updateNode q' u ol)"
      with n upd(3) show ?thesis by (auto simp: handled_def)
    next
      assume a: "find (\<lambda>m. node_position m = q') ol = Some n \<and> u n \<in> set (updateNode q' u ol)"
      with upd(1) have "m = n" by simp
      with upd(2) n(3) have "node_g (u n) \<le> b" by (simp add: u_def)
      moreover have "node_position (u n) = q" using n(2) by (simp add: u_def)
      ultimately show ?thesis using a upd(3) unfolding handled_def by auto
    qed
  qed
qed

lemma handled_visitNeighbor_new:
  assumes "q \<notin> set cl"
  shows "handled (visitNeighbor e c cl q ol) q (node_g c + 1)"
proof (cases "find (\<lambda>m. node_position m = q) ol")
  case None
  with assms show ?thesis by (simp add: visitNeighbor_def Let_def handled_def)
next
  case (Some m)
  note m = find_position_Some [OF Some]
  define u where "u = (\<lambda>n. CellNode (node_position n) (node_g c + 1 + heuristic q e)
      (node_g c + 1) (node_h n) (Some c))"
  show ?thesis
  proof (cases "node_g m \<le> node_g c + 1")
    case True
    with assms Some m show ?thesis by (auto simp: visitNeighbor_def Let_def handled_def)
  next
    case False
    then have v: "visitNeighbor e c cl q ol = updateNode q u ol"
      using assms Some by (simp add: visitNeighbor_def Let_def u_def)
    have "u m \<in> set (updateNode q u ol)" using Some by (rule updateNode_found)
    moreover have "node_position (u m) = q" "node_g (u m) \<le> node_g c + 1"
      using m by (simp_all add: u_def)
    ultimately show ?thesis unfolding v handled_def by blast
  qed
qed

lemma visitNeighbor_elements:
  assumes "n \<in> set (visitNeighbor e c cl q ol)"
  shows "n \<in> set ol \<or> childOf c q e n"
proof (cases "n \<in> set ol")
  case False
  with assms show ?thesis
    by (auto simp: visitNeighbor_def Let_def childOf_def
             split: if_splits option.splits dest!: set_updateNode)
qed simp

lemma nodeInv_child:
  assumes c: "nodeInv g0 s e c" and st: "unitStep (node_position c) q" and w: "walkable g0 q"
    and ch: "childOf c q e n"
  shows "nodeInv g0 s e n"
proof -
  obtain p f g h par where n: "n = CellNode p f g h par" by (cases n)
  with ch have eq: "p = q" "g = node_g c + 1" "f = g + heuristic q e" "par = Some c"
    by (simp_all add: childOf_def)
  have rp: "reconstructPath n = reconstructPath c @ [q]" by (simp add: n eq)
  from c have wc: "walk g0 (reconstructPath c)" and hc: "hd (reconstructPath c) = s"
    and gc: "node_g c = int (length (reconstructPath c)) - 1"
    by (simp_all add: nodeInv_def)
  have "walk g0 (reconstructPath n)"
    using wc st w unfolding rp walk_def by (simp add: successively_append_iff)
  moreover have "hd (reconstructPath n) = s" using hc by (simp add: rp)
  moreover have "node_g n = int (length (reconstructPath n)) - 1"
    using gc by (simp add: rp n eq)
  moreover have "node_f n = node_g n + heuristic (node_position n) e" by (simp add: n eq)
  ultimately show ?thesis by (simp add: nodeInv_def)
qed

lemma fold_visitNeighbor_nodeInv:
  assumes "\<forall>n\<in>set ol. nodeInv g0 s e n" "nodeInv g0 s e c"
    and "\<forall>q\<in>set qs. unitStep (node_position c) q \<and> walkable g0 q"
  shows "\<forall>n\<in>set (fold (visitNeighbor e c cl) qs ol). nodeInv g0 s e n"
  using assms
proof (induction qs arbitrary: ol)
  case Nil
  then show ?case by simp
next
  case (Cons q qs)
  have "\<forall>n\<in>set (visitNeighbor e c cl q ol). nodeInv g0 s e n"
  proof
    fix n assume "n \<in> set (visitNeighbor e c cl q ol)"
    then have "n \<in> set ol \<or> childOf c q e n" by (rule visitNeighbor_elements)
    then show "nodeInv g0 s e n"
      using Cons.prems nodeInv_child [of g0 s e c q n] by auto
  qed
  from Cons.IH [OF this Cons.prems(2)] Cons.prems(3) show ?case by simp
qed

lemma fold_visitNeighbor_handled_mono:
  "handled ol q b \<Longrightarrow> handled (fold (visitNeighbor e c cl) qs ol) q b"
  by (induction qs arbitrary: ol) (simp_all add: handled_visitNeighbor_mono)

lemma fold_visitNeighbor_handled_new:
  assumes "q \<in> set qs" "q \<notin> set cl"
  shows "handled (fold (visitNeighbor e c cl) qs ol) q (node_g c + 1)"
  using assms(1)
proof (induction qs arbitrary: ol)
  case Nil
  then show ?case by simp
next
  case (Cons a qs)
  show ?case
  proof (cases "a = q")
    case True
    have "handled (visitNeighbor e c cl q ol) q (node_g c + 1)"
      using assms(2) by (rule handled_visitNeighbor_new)
    then show ?thesis using True by (simp add: fold_visitNeighbor_handled_mono)
  next
    case False
    with Cons show ?thesis by simp
  qed
qed


lemma handled_weaken: "handled ol q b \<Longrightarrow> b \<le> b' \<Longrightarrow> handled ol q b'"
  by (auto simp: handled_def)

lemma same_position_same_node:
  assumes "distinct (map node_position ol)" "a \<in> set ol" "b \<in> set ol"
    "node_position a = node_position b"
  shows "a = b"
  using assms by (auto simp: distinct_map inj_on_def)

lemma set_remove_nth:
  "i < length ol \<Longrightarrow> set ol = insert (ol ! i) (set (take i ol @ drop (Suc i) ol))"
  using id_take_nth_drop [of i ol] by (metis list.simps(15) set_append Un_insert_right)

lemma frontier_handled:
  assumes oi: "optInv g0 s e ol cl" and w: "walk g0 ps" and h: "hd ps = s"
    and l: "last ps \<notin> set cl"
  shows "\<exists>j<length ps. handled ol (ps ! j) (int j)"
proof -
  from w have ne: "ps \<noteq> []" and st: "successively unitStep ps"
    and wk: "\<And>i. i < length ps \<Longrightarrow> walkable g0 (ps ! i)"
    by (simp_all add: walk_def list_all_length)
  from first_outside [OF ne l] obtain j where j: "j < length ps" "ps ! j \<notin> set cl"
    "\<And>i. i < j \<Longrightarrow> ps ! i \<in> set cl" by blast
  have "handled ol (ps ! j) (int j)"
  proof (cases j)
    case 0
    with j(2) h ne have "s \<notin> set cl" by (simp add: hd_conv_nth)
    with oi have "handled ol s 0" by (simp add: optInv_def)
    with 0 h ne show ?thesis by (simp add: hd_conv_nth)
  next
    case (Suc i)
    with j have i: "ps ! i \<in> set cl" "Suc i < length ps" by simp_all
    have u: "unitStep (ps ! i) (ps ! Suc i)" using st i(2) by (rule successively_nth)
    have r: "reach g0 s (ps ! i) i" using walk_prefix_reach [OF w, of i] i(2) h by simp
    from oi i(1) have "\<forall>q. unitStep (ps ! i) q \<and> walkable g0 q \<longrightarrow>
        q \<in> set cl \<or> (\<forall>k. reach g0 s (ps ! i) k \<longrightarrow> handled ol q (int k + 1))"
      unfolding optInv_def by blast
    with u wk [OF i(2)] j(2) Suc r have "handled ol (ps ! Suc i) (int i + 1)" by blast
    then have "handled ol (ps ! Suc i) (int (Suc i))" by (rule handled_weaken) simp
    with Suc show ?thesis by simp
  qed
  with j(1) show ?thesis by blast
qed

lemma pop_optimal:
  assumes fi: "frontierInv g0 s ol cl g" and oi: "optInv g0 s e ol cl" and ne: "ol \<noteq> []"
    and r: "reach g0 s (node_position (ol ! lowestIndex ol)) k"
  shows "node_g (ol ! lowestIndex ol) \<le> int k"
proof -
  define c where "c = ol ! lowestIndex ol"
  have cin: "c \<in> set ol" using lowestIndex_less [OF ne] by (simp add: c_def)
  from fi have d: "distinct (map node_position ol)"
    and disj: "set (map node_position ol) \<inter> set cl = {}"
    by (simp_all add: frontierInv_def)
  have pc: "node_position c \<notin> set cl" using cin disj by auto
  from r obtain ps where ps: "walk g0 ps" "hd ps = s" "last ps = node_position c"
    "length ps = Suc k" by (auto simp: reach_def c_def)
  from frontier_handled [OF oi ps(1,2)] pc ps(3)
  obtain j where j: "j < length ps" "handled ol (ps ! j) (int j)" by auto
  then obtain n where n: "n \<in> set ol" "node_position n = ps ! j" "node_g n \<le> int j"
    by (auto simp: handled_def)
  show ?thesis
  proof (cases "node_position c = s")
    case True
    with pc oi have "handled ol s 0" by (simp add: optInv_def)
    then obtain m where m: "m \<in> set ol" "node_position m = s" "node_g m \<le> 0"
      by (auto simp: handled_def)
    with same_position_same_node [OF d m(1) cin] True have "m = c" by simp
    with m(3) show ?thesis by (simp add: c_def)
  next
    case False
    from oi cin n(1) have ic: "nodeInv g0 s e c" and "nodeInv g0 s e n"
      by (simp_all add: optInv_def)
    then have fc: "node_f c = node_g c + heuristic (node_position c) e"
      and fn: "node_f n \<le> node_g n + heuristic (node_position n) e"
      using False by (simp_all add: nodeInv_def)
    have st: "successively unitStep ps" using ps(1) by (simp add: walk_def)
    have "j + (k - j) < length ps" using j(1) ps(4) by simp
    from heuristic_consistent [OF st this, of e]
    have "heuristic (ps ! j) e \<le> int (k - j) + heuristic (ps ! k) e"
      using j(1) ps(4) by simp
    moreover have "ps ! k = node_position c"
    proof -
      have "ps \<noteq> []" using ps(4) by auto
      then have "last ps = ps ! (length ps - 1)" by (rule last_conv_nth)
      with ps(3,4) show ?thesis by simp
    qed
    moreover have "node_f c \<le> node_f n" unfolding c_def using n(1) by (rule lowestIndex_min)
    ultimately show ?thesis
      using fc fn n(2,3) j(1) ps(4) by (simp add: c_def)
  qed
qed


lemma expand_optInv:
  assumes fi: "frontierInv g0 s ol cl g" and oi: "optInv g0 s e ol cl" and ne: "ol \<noteq> []"
    and notgoal: "node_position (ol ! lowestIndex ol) \<noteq> e"
    and ex: "expand s e (lowestIndex ol) ol cl g = (ol', cl', g')"
  shows "optInv g0 s e ol' cl'"
proof -
  define i where "i = lowestIndex ol"
  define c where "c = ol ! i"
  define p where "p = node_position c"
  define ol1 where "ol1 = take i ol @ drop (Suc i) ol"
  define g1 where "g1 = markVisited s e p g"
  define qs where "qs = getNeighbors g1 p"
  have i: "i < length ol" unfolding i_def using ne by (rule lowestIndex_less)
  have e1: "ol' = fold (visitNeighbor e c (p # cl)) qs ol1"
    using arg_cong [OF ex, of fst]
    unfolding expand_eq i_def [symmetric] c_def p_def ol1_def g1_def qs_def by simp
  have e2: "cl' = p # cl"
    using arg_cong [OF ex, of "\<lambda>t. fst (snd t)"]
    unfolding expand_eq i_def [symmetric] c_def p_def by simp
  from fi have sw: "sameWalls g0 g" and d: "distinct (map node_position ol)"
    and disj: "set (map node_position ol) \<inter> set cl = {}"
    and sub: "set (map node_position ol) \<union> set cl \<subseteq> insert s {p. walkable g0 p}"
    by (simp_all add: frontierInv_def)
  from oi have ni: "\<forall>n\<in>set ol. nodeInv g0 s e n"
    and os: "s \<in> set cl \<or> handled ol s 0" and oe: "e \<notin> set cl"
    and oc: "\<And>p' q. p' \<in> set cl \<Longrightarrow> unitStep p' q \<Longrightarrow> walkable g0 q \<Longrightarrow>
          q \<in> set cl \<or> (\<forall>k. reach g0 s p' k \<longrightarrow> handled ol q (int k + 1))"
    unfolding optInv_def by blast+
  have cin: "c \<in> set ol" using i by (simp add: c_def)
  have pin: "p \<in> set (map node_position ol)" using cin by (simp add: p_def)
  then have pw: "p = s \<or> walkable g0 p" using sub by auto
  have sw1: "sameWalls g0 g1" unfolding g1_def using sw pw by (rule sameWalls_markVisited)
  have qs: "q \<in> set qs \<longleftrightarrow> unitStep p q \<and> walkable g0 q" for q
    using sw1 by (simp add: qs_def getNeighbors_iff sameWalls_def)
  have setol: "set ol = insert c (set ol1)"
    using set_remove_nth [OF i] by (simp add: c_def ol1_def)
  have keep: "handled ol' q b" if "handled ol q b" "q \<noteq> p" for q b
  proof -
    from that obtain m where m: "m \<in> set ol" "node_position m = q" "node_g m \<le> b"
      by (auto simp: handled_def)
    with that(2) have "m \<noteq> c" by (auto simp: p_def)
    with m setol have "handled ol1 q b" by (auto simp: handled_def)
    then show ?thesis unfolding e1 by (rule fold_visitNeighbor_handled_mono)
  qed
  have opt: "node_g c \<le> int k" if "reach g0 s p k" for k
    using pop_optimal [OF fi oi ne] that by (simp add: c_def p_def i_def)
  have 1: "\<forall>n\<in>set ol'. nodeInv g0 s e n"
    unfolding e1
  proof (rule fold_visitNeighbor_nodeInv)
    show "\<forall>n\<in>set ol1. nodeInv g0 s e n" using ni setol by simp
    show "nodeInv g0 s e c" using ni cin by simp
    show "\<forall>q\<in>set qs. unitStep (node_position c) q \<and> walkable g0 q"
      using qs by (simp add: p_def)
  qed
  have 2: "s \<in> set cl' \<or> handled ol' s 0"
  proof (cases "s \<in> set cl \<or> s = p")
    case True
    then show ?thesis by (auto simp: e2)
  next
    case False
    with os have "handled ol s 0" by simp
    with False keep [of s 0] show ?thesis by simp
  qed
  have 3: "e \<notin> set cl'" using oe notgoal by (simp add: e2 p_def c_def i_def)
  have 4: "q \<in> set cl' \<or> (\<forall>k. reach g0 s p' k \<longrightarrow> handled ol' q (int k + 1))"
    if p': "p' \<in> set cl'" and u: "unitStep p' q" and w: "walkable g0 q" for p' q
  proof (cases "q \<in> set cl'")
    case True
    then show ?thesis by simp
  next
    case False
    then have qn: "q \<noteq> p" "q \<notin> set cl" "q \<notin> set (p # cl)" by (simp_all add: e2)
    show ?thesis
    proof (cases "p' = p")
      case True
      with u w have "q \<in> set qs" by (simp add: qs)
      then have h: "handled ol' q (node_g c + 1)"
        unfolding e1 using qn(3) by (rule fold_visitNeighbor_handled_new)
      have "handled ol' q (int k + 1)" if "reach g0 s p' k" for k
        using h opt [of k] that True by (intro handled_weaken [OF h]) simp
      then show ?thesis by simp
    next
      case False
      with p' have "p' \<in> set cl" by (simp add: e2)
      from oc [OF this u w] qn(2)
      have "\<forall>k. reach g0 s p' k \<longrightarrow> handled ol q (int k + 1)" by simp
      with keep qn(1) show ?thesis by blast
    qed
  qed
  show ?thesis unfolding optInv_def using 1 2 3 4 by blast
qed


lemma aStarLoop_optimal:
  assumes "frontierInv g0 s ol cl g" "optInv g0 s e ol cl" "reach g0 s e k0"
    and "worldWidth g0 * worldHeight g0 + 1 < fuel + length cl"
  shows "\<exists>path. fst (aStarLoop fuel s e ol cl g) = Some (Some path) \<and>
           walk g0 path \<and> hd path = s \<and> last path = e \<and>
           (\<forall>k. reach g0 s e k \<longrightarrow> length path \<le> Suc k)"
  using assms(1,2,4)
proof (induction fuel arbitrary: ol cl g)
  case 0
  from "0.prems"(1) have "length cl \<le> worldWidth g0 * worldHeight g0 + 1"
    by (intro closed_bound) (auto simp: frontierInv_def)
  with "0.prems"(3) show ?case by simp
next
  case (Suc fuel)
  note fi = Suc.prems(1) and oi = Suc.prems(2)
  have ne: "ol \<noteq> []"
  proof
    assume emp: "ol = []"
    from assms(3) obtain ps where ps: "walk g0 ps" "hd ps = s" "last ps = e"
      by (auto simp: reach_def)
    from oi have "e \<notin> set cl" by (simp add: optInv_def)
    with frontier_handled [OF oi ps(1,2)] ps(3) emp show False
      by (auto simp: handled_def)
  qed
  let ?i = "lowestIndex ol"
  let ?c = "ol ! ?i"
  have i: "?i < length ol" using ne by (rule lowestIndex_less)
  show ?case
  proof (cases "node_position ?c = e")
    case True
    from oi i have ic: "nodeInv g0 s e ?c" by (simp add: optInv_def)
    have res: "fst (aStarLoop (Suc fuel) s e ol cl g) = Some (Some (reconstructPath ?c))"
      using ne True by (simp add: Let_def)
    have "length (reconstructPath ?c) \<le> Suc k" if "reach g0 s e k" for k
    proof -
      from pop_optimal [OF fi oi ne] that True have "node_g ?c \<le> int k" by simp
      with ic show ?thesis by (simp add: nodeInv_def)
    qed
    with ic True res show ?thesis by (simp add: nodeInv_def)
  next
    case False
    obtain ol' cl' g' where ex: "expand s e ?i ol cl g = (ol', cl', g')"
      by (cases "expand s e ?i ol cl g") auto
    note st = expand_frontierInv [OF fi i ex]
    have oi': "optInv g0 s e ol' cl'" using fi oi ne False ex by (rule expand_optInv)
    have fu: "worldWidth g0 * worldHeight g0 + 1 < fuel + length cl'"
      using st(2) Suc.prems(3) by simp
    have "aStarLoop (Suc fuel) s e ol cl g = aStarLoop fuel s e ol' cl' g'"
      using ne False ex by (simp add: Let_def)
    with Suc.IH [OF st(1) oi' fu] show ?thesis by simp
  qed
qed

text \<open>
  Claim C2. On a well-formed grid, when some walk over walkable cells leads from the start
  to the goal, \<open>findPath\<close> returns a path (fuel for one iteration per cell of the world,
  and two more, is enough); the path is itself such a walk from start to goal, and no
  walk from start to goal is shorter.
\<close>

theorem findPath_returns_shortest_path:
  assumes "wf_grid grid"
    and "walk grid ps" and "hd ps = start" and "last ps = endPos"
    and "worldWidth grid * worldHeight grid + 2 \<le> fuel"
  shows "\<exists>path. fst (findPath fuel start endPos grid) = Some (Some path) \<and>
           walk grid path \<and> hd path = start \<and> last path = endPos \<and>
           (\<forall>qs. walk grid qs \<and> hd qs = start \<and> last qs = endPos
                \<longrightarrow> length path \<le> length qs)"
proof -
  define n0 where "n0 = CellNode start 0 0 (heuristic start endPos) None"
  have ne: "ps \<noteq> []" using assms(2) by (simp add: walk_def)
  then have ws: "walkable grid start"
    using assms(2,3) by (cases ps) (auto simp: walk_def)
  have fi: "frontierInv grid start [n0] [] grid"
    using assms(1) by (simp add: frontierInv_def sameWalls_def n0_def)
  have "nodeInv grid start endPos n0"
    using ws by (simp add: nodeInv_def n0_def walk_def heuristic_nonneg)
  then have oi: "optInv grid start endPos [n0] []"
    by (simp add: optInv_def handled_def n0_def)
  have r: "reach grid start endPos (length ps - 1)"
    using assms(2,3,4) ne unfolding reach_def by (intro exI [of _ ps]) simp
  have fu: "worldWidth grid * worldHeight grid + 1 < fuel + length ([] :: Position list)"
    using assms(5) by simp
  from aStarLoop_optimal [OF fi oi r fu]
  obtain path where p: "fst (aStarLoop fuel start endPos [n0] [] grid) = Some (Some path)"
    "walk grid path" "hd path = start" "last path = endPos"
    "\<And>k. reach grid start endPos k \<Longrightarrow> length path \<le> Suc k"
    by blast
  have "length path \<le> length qs"
    if "walk grid qs" "hd qs = start" "last qs = endPos" for qs
  proof -
    from that have "qs \<noteq> []" by (simp add: walk_def)
    then have "reach grid start endPos (length qs - 1)"
      using that unfolding reach_def by (intro exI [of _ qs]) simp
    from p(5) [OF this] \<open>qs \<noteq> []\<close> show ?thesis by (cases qs) auto
  qed
  with p(1-4) show ?thesis
    unfolding findPath_def aStar_def n0_def by blast
qed

theorem findPath_returns_shortest_path_witness:
  "wf_grid pathGrid \<and>
   walk pathGrid [Position 0 0, Position 0 1, Position 0 2, Position 1 2, Position 2 2] \<and>
   worldWidth pathGrid * worldHeight pathGrid + 2 \<le> 20 \<and>
   (\<exists>path. fst (findPath 20 (Position 0 0) (Position 2 2) pathGrid) = Some (Some path) \<and>
      walk pathGrid path \<and> hd path = Position 0 0 \<and> last path = Position 2 2 \<and>
      length path \<le> 5)"
proof -
  let ?ps = "[Position 0 0, Position 0 1, Position 0 2, Position 1 2, Position 2 2]"
  have w: "wf_grid pathGrid" by (simp add: wf_grid_def pathGrid_def)
  have k: "walk pathGrid ?ps"
    by (simp add: walk_def unitStep_def walkable_def getCell_def isWithinWorldBounds_def
          isWalkable_def pathGrid_def)
  have f: "worldWidth pathGrid * worldHeight pathGrid + 2 \<le> 20" by (simp add: pathGrid_def)
  from findPath_returns_shortest_path [OF w k _ _ f, of "Position 0 0" "Position 2 2"]
  obtain path where p: "fst (findPath 20 (Position 0 0) (Position 2 2) pathGrid) = Some (Some path)"
    "walk pathGrid path" "hd path = Position 0 0" "last path = Position 2 2"
    "\<forall>qs. walk pathGrid qs \<and> hd qs = Position 0 0 \<and> last qs = Position 2 2
        \<longrightarrow> length path \<le> length qs"
    by auto
  from p(5) k have "length path \<le> 5" by fastforce
  with p(1-4) w k f show ?thesis by blast
qed

end
